theory Spec2Isabelle
  imports Main "HOL-Library.AList"
begin

unbundle bit_operations_syntax

section \<open>Arbitrary-precision integers\<close>

text \<open>
  An \<open>APInt\<close> is a bit width together with an unsigned value below \<open>2 ^ width\<close>.
  The binary operators of the library assert that both sides have the same width; the
  assertion is a branch of the model.
\<close>

datatype error = AssertionFailure

datatype APInt = APInt (getBitWidth: nat) (getZExtValue: nat)

definition isNullValue :: "APInt \<Rightarrow> bool" where
  "isNullValue a = (getZExtValue a = 0)"

definition isAllOnesValue :: "APInt \<Rightarrow> bool" where
  "isAllOnesValue a = (getZExtValue a = 2 ^ getBitWidth a - 1)"

definition APInt_eq_uint :: "APInt \<Rightarrow> nat \<Rightarrow> bool" where
  "APInt_eq_uint a n = (getZExtValue a = n)"

definition APInt_and :: "APInt \<Rightarrow> APInt \<Rightarrow> error + APInt" where
  "APInt_and a b =
     (if getBitWidth a = getBitWidth b
      then Inr (APInt (getBitWidth a) (getZExtValue a AND getZExtValue b))
      else Inl AssertionFailure)"

definition APInt_or :: "APInt \<Rightarrow> APInt \<Rightarrow> error + APInt" where
  "APInt_or a b =
     (if getBitWidth a = getBitWidth b
      then Inr (APInt (getBitWidth a) (getZExtValue a OR getZExtValue b))
      else Inl AssertionFailure)"

definition APInt_xor :: "APInt \<Rightarrow> APInt \<Rightarrow> error + APInt" where
  "APInt_xor a b =
     (if getBitWidth a = getBitWidth b
      then Inr (APInt (getBitWidth a) (getZExtValue a XOR getZExtValue b))
      else Inl AssertionFailure)"

definition APInt_add :: "APInt \<Rightarrow> APInt \<Rightarrow> error + APInt" where
  "APInt_add a b =
     (if getBitWidth a = getBitWidth b
      then Inr (APInt (getBitWidth a) ((getZExtValue a + getZExtValue b) mod 2 ^ getBitWidth a))
      else Inl AssertionFailure)"

definition APInt_mul :: "APInt \<Rightarrow> APInt \<Rightarrow> error + APInt" where
  "APInt_mul a b =
     (if getBitWidth a = getBitWidth b
      then Inr (APInt (getBitWidth a) ((getZExtValue a * getZExtValue b) mod 2 ^ getBitWidth a))
      else Inl AssertionFailure)"

text \<open>\<open>APInt(numBits, val, isSigned)\<close>: the two's complement of \<open>val\<close> cut to \<open>numBits\<close> bits.\<close>

definition APInt_ofInt :: "nat \<Rightarrow> int \<Rightarrow> APInt" where
  "APInt_ofInt numBits v = APInt numBits (nat (v mod 2 ^ numBits))"

text \<open>\<open>a << b\<close> with an \<open>APInt\<close> shift amount: a shift by the width or more gives 0.\<close>

definition APInt_shl :: "APInt \<Rightarrow> APInt \<Rightarrow> APInt" where
  "APInt_shl a b =
     (if getZExtValue b \<ge> getBitWidth a then APInt (getBitWidth a) 0
      else APInt (getBitWidth a) ((getZExtValue a * 2 ^ getZExtValue b) mod 2 ^ getBitWidth a))"

text \<open>\<open>lshr(shiftAmt)\<close> asserts \<open>shiftAmt \<le> BitWidth\<close>; \<open>trunc(width)\<close> asserts
  \<open>0 < width < BitWidth\<close>.\<close>

definition APInt_lshr :: "APInt \<Rightarrow> nat \<Rightarrow> error + APInt" where
  "APInt_lshr a shiftAmt =
     (if shiftAmt \<le> getBitWidth a
      then Inr (APInt (getBitWidth a) (getZExtValue a div 2 ^ shiftAmt))
      else Inl AssertionFailure)"

definition APInt_trunc :: "APInt \<Rightarrow> nat \<Rightarrow> error + APInt" where
  "APInt_trunc a width =
     (if 0 < width \<and> width < getBitWidth a
      then Inr (APInt width (getZExtValue a mod 2 ^ width))
      else Inl AssertionFailure)"

fun countPopulation :: "nat \<Rightarrow> nat" where
  "countPopulation n = (if n = 0 then 0 else n mod 2 + countPopulation (n div 2))"

fun logBase2 :: "nat \<Rightarrow> nat" where
  "logBase2 n = (if n < 2 then 0 else Suc (logBase2 (n div 2)))"

declare countPopulation.simps [simp del] logBase2.simps [simp del]

definition isPowerOf2 :: "APInt \<Rightarrow> bool" where
  "isPowerOf2 a = (countPopulation (getZExtValue a) = 1)"

definition exactLogBase2 :: "APInt \<Rightarrow> int" where
  "exactLogBase2 a = (if isPowerOf2 a then int (logBase2 (getZExtValue a)) else - 1)"

section \<open>The IR: values, operations, a block\<close>

text \<open>
  A \<open>Value\<close> is the identity of an SSA value; two operands are the same node exactly when
  they are the same \<open>Value\<close>. A block lists its operations in program order, each with the
  value it defines. The five variadic operations share one constructor, tagged with the
  operation class (the template parameter of \<open>tryFlatteningOperands\<close>). \<open>OtherOp\<close> stands
  for every definition the simplifier does not look into: a block argument (no operands), a
  wire, an instance, an output.
\<close>

type_synonym Value = nat
type_synonym IntegerType = nat

datatype OpClass = AndOp | OrOp | XorOp | AddOp | MulOp

datatype Operation =
    ConstantOp APInt
  | Variadic OpClass IntegerType "Value list"
  | ShlOp IntegerType Value Value
  | ExtractOp IntegerType Value nat
  | SExtOp IntegerType Value
  | ZExtOp IntegerType Value
  | OtherOp IntegerType "Value list"

fun resultType :: "Operation \<Rightarrow> IntegerType" where
  "resultType (ConstantOp a) = getBitWidth a"
| "resultType (Variadic c ty inputs) = ty"
| "resultType (ShlOp ty lhs rhs) = ty"
| "resultType (ExtractOp ty input lowBit) = ty"
| "resultType (SExtOp ty input) = ty"
| "resultType (ZExtOp ty input) = ty"
| "resultType (OtherOp ty operands) = ty"

fun getOperands :: "Operation \<Rightarrow> Value list" where
  "getOperands (ConstantOp a) = []"
| "getOperands (Variadic c ty inputs) = inputs"
| "getOperands (ShlOp ty lhs rhs) = [lhs, rhs]"
| "getOperands (ExtractOp ty input lowBit) = [input]"
| "getOperands (SExtOp ty input) = [input]"
| "getOperands (ZExtOp ty input) = [input]"
| "getOperands (OtherOp ty operands) = operands"

record ir =
  body :: "(Value \<times> Operation) list"
  nextValue :: Value

definition getDefiningOp :: "ir \<Rightarrow> Value \<Rightarrow> Operation option" where
  "getDefiningOp m v = map_of (body m) v"

definition getType :: "ir \<Rightarrow> Value \<Rightarrow> IntegerType" where
  "getType m v = (case getDefiningOp m v of Some d \<Rightarrow> resultType d | None \<Rightarrow> 0)"

text \<open>\<open>matchPattern(v, m_RConstant(value))\<close>: the value of the defining constant, if any.\<close>

definition m_RConstant :: "ir \<Rightarrow> Value \<Rightarrow> APInt option" where
  "m_RConstant m v = (case getDefiningOp m v of Some (ConstantOp a) \<Rightarrow> Some a | _ \<Rightarrow> None)"

text \<open>A use is one operand slot of one operation of the block.\<close>

definition numUses :: "ir \<Rightarrow> Value \<Rightarrow> nat" where
  "numUses m v = sum_list (map (\<lambda>(u, d). count_list (getOperands d) v) (body m))"

definition hasOneUse :: "ir \<Rightarrow> Value \<Rightarrow> bool" where
  "hasOneUse m v = (numUses m v = 1)"

subsection \<open>The rewriter\<close>

text \<open>
  The driver sets the insertion point to the operation being rewritten, so a created
  operation lands immediately before it, with a fresh result. \<open>replaceOpWithNewOp\<close>
  creates the replacement, redirects every use of the old result to it and erases the old
  operation: in the model the replacement takes over the old operation's place and
  result identity.
\<close>

fun insertBefore :: "Value \<Rightarrow> Value \<times> Operation \<Rightarrow> (Value \<times> Operation) list
    \<Rightarrow> (Value \<times> Operation) list" where
  "insertBefore r e [] = [e]"
| "insertBefore r e (p # rest) =
     (if fst p = r then e # p # rest else p # insertBefore r e rest)"

definition create :: "ir \<Rightarrow> Value \<Rightarrow> Operation \<Rightarrow> Value \<times> ir" where
  "create m root d =
     (nextValue m,
      m\<lparr>body := insertBefore root (nextValue m, d) (body m), nextValue := Suc (nextValue m)\<rparr>)"

definition replaceOpWithNewOp :: "ir \<Rightarrow> Value \<Rightarrow> Operation \<Rightarrow> ir" where
  "replaceOpWithNewOp m root d = m\<lparr>body := AList.update root d (body m)\<rparr>"

definition drop_back :: "nat \<Rightarrow> 'a list \<Rightarrow> 'a list" where
  "drop_back n xs = take (length xs - n) xs"

section \<open>Constants\<close>

text \<open>\<open>ConstantOp::build(builder, result, int64_t value, IntegerType type)\<close>.\<close>

definition ConstantOp_ofInt :: "int \<Rightarrow> IntegerType \<Rightarrow> Operation" where
  "ConstantOp_ofInt v ty = ConstantOp (APInt_ofInt ty v)"

section \<open>Flattening\<close>

text \<open>
  The loop of \<open>tryFlatteningOperands\<close>: \<open>pre\<close> holds the inputs already passed over,
  the second list the inputs from index \<open>i\<close> on. The first input with exactly one use
  that is defined by an operation of the same class is replaced by that operation's inputs.
\<close>

fun flattenedOperands :: "ir \<Rightarrow> OpClass \<Rightarrow> Value list \<Rightarrow> Value list \<Rightarrow> Value list option" where
  "flattenedOperands m c pre [] = None"
| "flattenedOperands m c pre (x # post) =
     (if \<not> hasOneUse m x then flattenedOperands m c (pre @ [x]) post
      else case getDefiningOp m x of
             Some (Variadic c' ty' flattenOpInputs) \<Rightarrow>
               (if c' = c then Some (pre @ flattenOpInputs @ post)
                else flattenedOperands m c (pre @ [x]) post)
           | _ \<Rightarrow> flattenedOperands m c (pre @ [x]) post)"

definition tryFlatteningOperands :: "ir \<Rightarrow> OpClass \<Rightarrow> Value \<Rightarrow> IntegerType \<Rightarrow> Value list
    \<Rightarrow> ir option" where
  "tryFlatteningOperands m c root ty inputs =
     (case flattenedOperands m c [] inputs of
        Some newOperands \<Rightarrow> Some (replaceOpWithNewOp m root (Variadic c ty newOperands))
      | None \<Rightarrow> None)"

section \<open>Verifiers\<close>

datatype LogicalResult = success | failure string

definition verifyExtOp :: "IntegerType \<Rightarrow> IntegerType \<Rightarrow> LogicalResult" where
  "verifyExtOp srcType dstType =
     (if srcType \<ge> dstType then failure ''extension must increase bitwidth of operand''
      else success)"

definition verifyExtractOp :: "IntegerType \<Rightarrow> IntegerType \<Rightarrow> nat \<Rightarrow> LogicalResult" where
  "verifyExtractOp srcWidth dstWidth lowBit =
     (if lowBit \<ge> srcWidth \<or> srcWidth - lowBit < dstWidth
      then failure ''from bit too large for input''
      else success)"

definition verifyUTVariadicRTLOp :: "Value list \<Rightarrow> LogicalResult" where
  "verifyUTVariadicRTLOp operands =
     (if length operands < 1 then failure ''requires 1 or more args'' else success)"

text \<open>The verifier of the operation that defines a value, as the framework dispatches it.\<close>

fun verifyOp :: "ir \<Rightarrow> Operation \<Rightarrow> LogicalResult" where
  "verifyOp m (SExtOp ty input) = verifyExtOp (getType m input) ty"
| "verifyOp m (ZExtOp ty input) = verifyExtOp (getType m input) ty"
| "verifyOp m (ExtractOp ty input lowBit) = verifyExtractOp (getType m input) ty lowBit"
| "verifyOp m (Variadic c ty inputs) = verifyUTVariadicRTLOp inputs"
| "verifyOp m d = success"

section \<open>Folds\<close>

datatype OpFoldResult = FoldValue Value | FoldAttr APInt | NoFold

text \<open>\<open>inputs().back()\<close> of an empty operand range is an out-of-range access.\<close>

definition AndOp_fold :: "ir \<Rightarrow> Value list \<Rightarrow> error + OpFoldResult" where
  "AndOp_fold m inputs =
     (if length inputs = 1 then Inr (FoldValue (inputs ! 0))
      else if inputs = [] then Inl AssertionFailure
      else case m_RConstant m (last inputs) of
             Some v \<Rightarrow> if isNullValue v then Inr (FoldValue (last inputs)) else Inr NoFold
           | None \<Rightarrow> Inr NoFold)"

definition OrOp_fold :: "ir \<Rightarrow> Value list \<Rightarrow> error + OpFoldResult" where
  "OrOp_fold m inputs =
     (if length inputs = 1 then Inr (FoldValue (inputs ! 0))
      else if inputs = [] then Inl AssertionFailure
      else case m_RConstant m (last inputs) of
             Some v \<Rightarrow> if isAllOnesValue v then Inr (FoldValue (last inputs)) else Inr NoFold
           | None \<Rightarrow> Inr NoFold)"

definition XorOp_fold :: "IntegerType \<Rightarrow> Value list \<Rightarrow> error + OpFoldResult" where
  "XorOp_fold ty inputs =
     (if length inputs = 1 then Inr (FoldValue (inputs ! 0))
      else if length inputs = 2 \<and> inputs ! 0 = inputs ! 1 then Inr (FoldAttr (APInt ty 0))
      else Inr NoFold)"

definition AddOp_fold :: "Value list \<Rightarrow> error + OpFoldResult" where
  "AddOp_fold inputs =
     (if length inputs = 1 then Inr (FoldValue (inputs ! 0)) else Inr NoFold)"

definition MulOp_fold :: "ir \<Rightarrow> Value list \<Rightarrow> error + OpFoldResult" where
  "MulOp_fold m inputs =
     (if length inputs = 1 then Inr (FoldValue (inputs ! 0))
      else if inputs = [] then Inl AssertionFailure
      else case m_RConstant m (last inputs) of
             Some v \<Rightarrow> if isNullValue v then Inr (FoldValue (last inputs)) else Inr NoFold
           | None \<Rightarrow> Inr NoFold)"

definition ExtractOp_fold :: "ir \<Rightarrow> IntegerType \<Rightarrow> Value \<Rightarrow> nat \<Rightarrow> error + OpFoldResult" where
  "ExtractOp_fold m ty input lowBit =
     (if getType m input = ty then Inr (FoldValue input)
      else case m_RConstant m input of
             Some v \<Rightarrow>
               (case APInt_lshr v lowBit of
                  Inl e \<Rightarrow> Inl e
                | Inr shifted \<Rightarrow>
                    (case APInt_trunc shifted ty of
                       Inl e \<Rightarrow> Inl e
                     | Inr r \<Rightarrow> Inr (FoldAttr r)))
           | None \<Rightarrow> Inr NoFold)"

section \<open>Canonicalization patterns\<close>

text \<open>
  \<open>matchAndRewrite(op, rewriter)\<close> of each variadic operation: \<open>root\<close> is the result of
  \<open>op\<close>, \<open>ty\<close> its type, \<open>inputs\<close> its operands. The result is the failed assertion,
  \<open>failure()\<close> (\<open>Inr None\<close>) or \<open>success()\<close> with the rewritten IR.
\<close>

definition matchConstantPair :: "ir \<Rightarrow> Value list \<Rightarrow> (APInt \<times> APInt) option" where
  "matchConstantPair m inputs =
     (case m_RConstant m (inputs ! (length inputs - 1)) of
        Some v \<Rightarrow>
          (case m_RConstant m (inputs ! (length inputs - 2)) of
             Some v2 \<Rightarrow> Some (v, v2)
           | None \<Rightarrow> None)
      | None \<Rightarrow> None)"

definition lastIsConstant :: "ir \<Rightarrow> Value list \<Rightarrow> (APInt \<Rightarrow> bool) \<Rightarrow> bool" where
  "lastIsConstant m inputs P = (case m_RConstant m (last inputs) of Some v \<Rightarrow> P v | None \<Rightarrow> False)"

text \<open>Replace the last two inputs by a new constant: the body of every constant-folding rule.\<close>

definition replaceLastTwoByConstant :: "ir \<Rightarrow> OpClass \<Rightarrow> Value \<Rightarrow> IntegerType \<Rightarrow> Value list
    \<Rightarrow> APInt \<Rightarrow> ir" where
  "replaceLastTwoByConstant m c root ty inputs v =
     (let (cst, m1) = create m root (ConstantOp v)
      in replaceOpWithNewOp m1 root (Variadic c ty (drop_back 2 inputs @ [cst])))"

definition AndOp_matchAndRewrite :: "ir \<Rightarrow> Value \<Rightarrow> IntegerType \<Rightarrow> Value list
    \<Rightarrow> error + ir option" where
  "AndOp_matchAndRewrite m root ty inputs =
     (if \<not> length inputs > 1 then Inl AssertionFailure
      else if lastIsConstant m inputs isAllOnesValue
        then Inr (Some (replaceOpWithNewOp m root (Variadic AndOp ty (drop_back 1 inputs))))
      else if inputs ! (length inputs - 1) = inputs ! (length inputs - 2)
        then Inr (Some (replaceOpWithNewOp m root (Variadic AndOp ty (drop_back 1 inputs))))
      else case matchConstantPair m inputs of
             Some (v, v2) \<Rightarrow>
               (case APInt_and v v2 of
                  Inl e \<Rightarrow> Inl e
                | Inr c \<Rightarrow> Inr (Some (replaceLastTwoByConstant m AndOp root ty inputs c)))
           | None \<Rightarrow> Inr (tryFlatteningOperands m AndOp root ty inputs))"

definition OrOp_matchAndRewrite :: "ir \<Rightarrow> Value \<Rightarrow> IntegerType \<Rightarrow> Value list
    \<Rightarrow> error + ir option" where
  "OrOp_matchAndRewrite m root ty inputs =
     (if \<not> length inputs > 1 then Inl AssertionFailure
      else if lastIsConstant m inputs isNullValue
        then Inr (Some (replaceOpWithNewOp m root (Variadic OrOp ty (drop_back 1 inputs))))
      else if inputs ! (length inputs - 1) = inputs ! (length inputs - 2)
        then Inr (Some (replaceOpWithNewOp m root (Variadic OrOp ty (drop_back 1 inputs))))
      else case matchConstantPair m inputs of
             Some (v, v2) \<Rightarrow>
               (case APInt_or v v2 of
                  Inl e \<Rightarrow> Inl e
                | Inr c \<Rightarrow> Inr (Some (replaceLastTwoByConstant m OrOp root ty inputs c)))
           | None \<Rightarrow> Inr (tryFlatteningOperands m OrOp root ty inputs))"

definition XorOp_matchAndRewrite :: "ir \<Rightarrow> Value \<Rightarrow> IntegerType \<Rightarrow> Value list
    \<Rightarrow> error + ir option" where
  "XorOp_matchAndRewrite m root ty inputs =
     (if \<not> length inputs > 1 then Inl AssertionFailure
      else if lastIsConstant m inputs isNullValue
        then Inr (Some (replaceOpWithNewOp m root (Variadic XorOp ty (drop_back 1 inputs))))
      else if inputs ! (length inputs - 1) = inputs ! (length inputs - 2)
        then (if \<not> length inputs > 2 then Inl AssertionFailure
              else Inr (Some (replaceOpWithNewOp m root (Variadic XorOp ty (drop_back 2 inputs)))))
      else case matchConstantPair m inputs of
             Some (v, v2) \<Rightarrow>
               (case APInt_xor v v2 of
                  Inl e \<Rightarrow> Inl e
                | Inr c \<Rightarrow> Inr (Some (replaceLastTwoByConstant m XorOp root ty inputs c)))
           | None \<Rightarrow> Inr (tryFlatteningOperands m XorOp root ty inputs))"

text \<open>
  Modelled from the spec: the generated builders of \<open>ShlOp\<close> and \<open>MulOp\<close> that take no
  result type are not in the source; every operand of such an operation has the width of
  the node, so the result gets the type of the first operand.
\<close>

definition build_ShlOp :: "ir \<Rightarrow> Value \<Rightarrow> Value \<Rightarrow> Operation" where
  "build_ShlOp m lhs rhs = ShlOp (getType m lhs) lhs rhs"

definition build_MulOp :: "ir \<Rightarrow> Value list \<Rightarrow> Operation" where
  "build_MulOp m factors = Variadic MulOp (getType m (factors ! 0)) factors"

text \<open>\<open>add(..., x, shl(x, c))\<close>: the shifted value and the constant shift amount.\<close>

definition matchAddShl :: "ir \<Rightarrow> Value list \<Rightarrow> (Value \<times> APInt) option" where
  "matchAddShl m inputs =
     (case getDefiningOp m (inputs ! (length inputs - 1)) of
        Some (ShlOp sty lhs rhs) \<Rightarrow>
          (if lhs = inputs ! (length inputs - 2)
           then (case m_RConstant m rhs of Some v \<Rightarrow> Some (lhs, v) | None \<Rightarrow> None)
           else None)
      | _ \<Rightarrow> None)"

text \<open>\<open>add(..., x, mul(x, c))\<close>: the first factor and the constant second factor.\<close>

definition matchAddMul :: "ir \<Rightarrow> Value list \<Rightarrow> (Value \<times> APInt) option" where
  "matchAddMul m inputs =
     (case getDefiningOp m (inputs ! (length inputs - 1)) of
        Some (Variadic MulOp mty mulInputs) \<Rightarrow>
          (if length mulInputs = 2 \<and> mulInputs ! 0 = inputs ! (length inputs - 2)
           then (case m_RConstant m (mulInputs ! 1) of
                   Some v \<Rightarrow> Some (mulInputs ! 0, v)
                 | None \<Rightarrow> None)
           else None)
      | _ \<Rightarrow> None)"

text \<open>Replace the last two inputs by \<open>mul(x, rhs)\<close> for a new constant \<open>rhs\<close>.\<close>

definition replaceLastTwoByMul :: "ir \<Rightarrow> Value \<Rightarrow> IntegerType \<Rightarrow> Value list \<Rightarrow> Value
    \<Rightarrow> APInt \<Rightarrow> ir" where
  "replaceLastTwoByMul m root ty inputs x c =
     (let (rhs, m1) = create m root (ConstantOp c);
          (mulOp, m2) = create m1 root (build_MulOp m1 [x, rhs])
      in replaceOpWithNewOp m2 root (Variadic AddOp ty (drop_back 2 inputs @ [mulOp])))"

definition AddOp_matchAndRewrite :: "ir \<Rightarrow> Value \<Rightarrow> IntegerType \<Rightarrow> Value list
    \<Rightarrow> error + ir option" where
  "AddOp_matchAndRewrite m root ty inputs =
     (if \<not> length inputs > 1 then Inl AssertionFailure
      else if lastIsConstant m inputs isNullValue
        then Inr (Some (replaceOpWithNewOp m root (Variadic AddOp ty (drop_back 1 inputs))))
      else (case matchConstantPair m inputs of
        Some (v, v2) \<Rightarrow>
          (case APInt_add v v2 of
             Inl e \<Rightarrow> Inl e
           | Inr c \<Rightarrow> Inr (Some (replaceLastTwoByConstant m AddOp root ty inputs c)))
      | None \<Rightarrow>
      (if inputs ! (length inputs - 1) = inputs ! (length inputs - 2)
        then (let (one, m1) = create m root (ConstantOp_ofInt 1 ty);
                  (shiftLeftOp, m2) = create m1 root (build_ShlOp m1 (last inputs) one)
              in Inr (Some (replaceOpWithNewOp m2 root
                             (Variadic AddOp ty (drop_back 2 inputs @ [shiftLeftOp])))))
      else (case matchAddShl m inputs of
        Some (x, v) \<Rightarrow>
          (let one = APInt_ofInt (getBitWidth v) 1
           in (case APInt_add (APInt_shl one v) one of
                 Inl e \<Rightarrow> Inl e
               | Inr c \<Rightarrow> Inr (Some (replaceLastTwoByMul m root ty inputs x c))))
      | None \<Rightarrow>
      (case matchAddMul m inputs of
        Some (x, v) \<Rightarrow>
          (let one = APInt_ofInt (getBitWidth v) 1
           in (case APInt_add v one of
                 Inl e \<Rightarrow> Inl e
               | Inr c \<Rightarrow> Inr (Some (replaceLastTwoByMul m root ty inputs x c))))
      | None \<Rightarrow> Inr (tryFlatteningOperands m AddOp root ty inputs))))))"

definition MulOp_matchAndRewrite :: "ir \<Rightarrow> Value \<Rightarrow> IntegerType \<Rightarrow> Value list
    \<Rightarrow> error + ir option" where
  "MulOp_matchAndRewrite m root ty inputs =
     (if \<not> length inputs > 1 then Inl AssertionFailure
      else if length inputs = 2 \<and> lastIsConstant m inputs isPowerOf2
        then (let v = the (m_RConstant m (last inputs));
                  (shift, m1) = create m root (ConstantOp_ofInt (exactLogBase2 v) ty);
                  (shlOp, m2) = create m1 root (build_ShlOp m1 (inputs ! 0) shift)
              in Inr (Some (replaceOpWithNewOp m2 root (Variadic MulOp ty [shlOp]))))
      else if lastIsConstant m inputs (\<lambda>v. APInt_eq_uint v 1)
        then Inr (Some (replaceOpWithNewOp m root (Variadic MulOp ty (drop_back 1 inputs))))
      else case matchConstantPair m inputs of
             Some (v, v2) \<Rightarrow>
               (case APInt_mul v v2 of
                  Inl e \<Rightarrow> Inl e
                | Inr c \<Rightarrow> Inr (Some (replaceLastTwoByConstant m MulOp root ty inputs c)))
           | None \<Rightarrow> Inr (tryFlatteningOperands m MulOp root ty inputs))"

text \<open>The pattern the driver runs on an operation: the one registered for its class.\<close>

definition canonicalize :: "ir \<Rightarrow> Value \<Rightarrow> error + ir option" where
  "canonicalize m root =
     (case getDefiningOp m root of
        Some (Variadic AndOp ty inputs) \<Rightarrow> AndOp_matchAndRewrite m root ty inputs
      | Some (Variadic OrOp ty inputs) \<Rightarrow> OrOp_matchAndRewrite m root ty inputs
      | Some (Variadic XorOp ty inputs) \<Rightarrow> XorOp_matchAndRewrite m root ty inputs
      | Some (Variadic AddOp ty inputs) \<Rightarrow> AddOp_matchAndRewrite m root ty inputs
      | Some (Variadic MulOp ty inputs) \<Rightarrow> MulOp_matchAndRewrite m root ty inputs
      | _ \<Rightarrow> Inr None)"

section \<open>Reference notions\<close>

text \<open>The bits of \<open>a\<close> from \<open>lowBit\<close> up, cut to \<open>width\<close> bits: the value of an extract.\<close>

definition extractBits :: "nat \<Rightarrow> nat \<Rightarrow> nat \<Rightarrow> nat" where
  "extractBits a lowBit width = (a div 2 ^ lowBit) mod 2 ^ width"

text \<open>
  Fresh results are numbered from \<open>nextValue\<close> on: every value the block defines or
  uses lies below it.
\<close>

definition valuesBelowNext :: "ir \<Rightarrow> bool" where
  "valuesBelowNext m =
     (\<forall>(u, d) \<in> set (body m). u < nextValue m \<and> (\<forall>x \<in> set (getOperands d). x < nextValue m))"

text \<open>
  The constant the spec assigns to a folded pair: the bitwise operators exactly, addition
  and multiplication modulo \<open>2 ^ w\<close>.
\<close>

definition foldedValue :: "OpClass \<Rightarrow> nat \<Rightarrow> nat \<Rightarrow> nat \<Rightarrow> nat" where
  "foldedValue c w a b =
     (case c of AndOp \<Rightarrow> a AND b | OrOp \<Rightarrow> a OR b | XorOp \<Rightarrow> a XOR b
      | AddOp \<Rightarrow> (a + b) mod 2 ^ w | MulOp \<Rightarrow> (a * b) mod 2 ^ w)"

text \<open>
  The outcome "the rewrite succeeded and the node now has the operands before the pair
  followed by one constant of value \<open>k\<close>".
\<close>

definition lastTwoFoldedTo :: "error + ir option \<Rightarrow> Value \<Rightarrow> OpClass \<Rightarrow> IntegerType
    \<Rightarrow> Value list \<Rightarrow> APInt \<Rightarrow> bool" where
  "lastTwoFoldedTo res root c ty inputs k =
     (case res of
        Inr (Some m') \<Rightarrow>
          (case getDefiningOp m' root of
             Some (Variadic c' ty' ins) \<Rightarrow>
               c' = c \<and> ty' = ty \<and> ins \<noteq> [] \<and> butlast ins = drop_back 2 inputs \<and>
               m_RConstant m' (last ins) = Some k
           | _ \<Rightarrow> False)
      | _ \<Rightarrow> False)"

subsection \<open>The rules of the spec, one by one, and the order they are tried in\<close>

text \<open>
  A rule looks at a node and either does not match (\<open>None\<close>) or fires, with the rewritten
  IR, or with the assertion of \<open>APInt\<close> that combining two constants of different widths
  stops at. \<open>firstMatch\<close> tries a list of rules in order: the first rule that matches
  decides the outcome, and when none matches the call reports failure and returns no new
  IR. Idempotence of \<open>XorOp\<close> needs three operands and does not apply to a node of two;
  the spec gives \<open>MulOp\<close> no idempotence rule.
\<close>

type_synonym rule = "ir \<Rightarrow> Value \<Rightarrow> IntegerType \<Rightarrow> Value list \<Rightarrow> (error + ir) option"

fun firstMatch :: "rule list \<Rightarrow> ir \<Rightarrow> Value \<Rightarrow> IntegerType \<Rightarrow> Value list
    \<Rightarrow> error + ir option" where
  "firstMatch [] m root ty inputs = Inr None"
| "firstMatch (r # rs) m root ty inputs =
     (case r m root ty inputs of
        Some (Inl e) \<Rightarrow> Inl e
      | Some (Inr m') \<Rightarrow> Inr (Some m')
      | None \<Rightarrow> firstMatch rs m root ty inputs)"

text \<open>
  The identity constant of each class. The list of the spec names none for \<open>XorOp\<close>; 0 is
  taken for it, as the source does.
\<close>

definition identityConstant :: "OpClass \<Rightarrow> APInt \<Rightarrow> bool" where
  "identityConstant c v =
     (case c of AndOp \<Rightarrow> isAllOnesValue v | OrOp \<Rightarrow> isNullValue v | XorOp \<Rightarrow> isNullValue v
      | AddOp \<Rightarrow> isNullValue v | MulOp \<Rightarrow> APInt_eq_uint v 1)"

definition identityRule :: "OpClass \<Rightarrow> rule" where
  "identityRule c m root ty inputs =
     (if lastIsConstant m inputs (identityConstant c)
      then Some (Inr (replaceOpWithNewOp m root (Variadic c ty (drop_back 1 inputs))))
      else None)"

definition idempotenceRule :: "OpClass \<Rightarrow> rule" where
  "idempotenceRule c m root ty inputs =
     (if inputs ! (length inputs - 1) = inputs ! (length inputs - 2)
      then (case c of
              AndOp \<Rightarrow> Some (Inr (replaceOpWithNewOp m root (Variadic c ty (drop_back 1 inputs))))
            | OrOp \<Rightarrow> Some (Inr (replaceOpWithNewOp m root (Variadic c ty (drop_back 1 inputs))))
            | XorOp \<Rightarrow>
                (if length inputs \<ge> 3
                 then Some (Inr (replaceOpWithNewOp m root (Variadic c ty (drop_back 2 inputs))))
                 else None)
            | AddOp \<Rightarrow>
                (let (one, m1) = create m root (ConstantOp_ofInt 1 ty);
                     (shiftLeftOp, m2) = create m1 root (build_ShlOp m1 (last inputs) one)
                 in Some (Inr (replaceOpWithNewOp m2 root
                                 (Variadic c ty (drop_back 2 inputs @ [shiftLeftOp])))))
            | MulOp \<Rightarrow> None)
      else None)"

definition combineConstants :: "OpClass \<Rightarrow> APInt \<Rightarrow> APInt \<Rightarrow> error + APInt" where
  "combineConstants c v v2 =
     (case c of AndOp \<Rightarrow> APInt_and v v2 | OrOp \<Rightarrow> APInt_or v v2 | XorOp \<Rightarrow> APInt_xor v v2
      | AddOp \<Rightarrow> APInt_add v v2 | MulOp \<Rightarrow> APInt_mul v v2)"

definition constantPairRule :: "OpClass \<Rightarrow> rule" where
  "constantPairRule c m root ty inputs =
     (case matchConstantPair m inputs of
        Some (v, v2) \<Rightarrow>
          (case combineConstants c v v2 of
             Inl e \<Rightarrow> Some (Inl e)
           | Inr k \<Rightarrow> Some (Inr (replaceLastTwoByConstant m c root ty inputs k)))
      | None \<Rightarrow> None)"

definition flattenRule :: "OpClass \<Rightarrow> rule" where
  "flattenRule c m root ty inputs =
     (case tryFlatteningOperands m c root ty inputs of Some m' \<Rightarrow> Some (Inr m') | None \<Rightarrow> None)"

definition addShlRule :: rule where
  "addShlRule m root ty inputs =
     (case matchAddShl m inputs of
        Some (x, v) \<Rightarrow>
          (case APInt_add (APInt_shl (APInt_ofInt (getBitWidth v) 1) v)
                  (APInt_ofInt (getBitWidth v) 1) of
             Inl e \<Rightarrow> Some (Inl e)
           | Inr k \<Rightarrow> Some (Inr (replaceLastTwoByMul m root ty inputs x k)))
      | None \<Rightarrow> None)"

definition addMulRule :: rule where
  "addMulRule m root ty inputs =
     (case matchAddMul m inputs of
        Some (x, v) \<Rightarrow>
          (case APInt_add v (APInt_ofInt (getBitWidth v) 1) of
             Inl e \<Rightarrow> Some (Inl e)
           | Inr k \<Rightarrow> Some (Inr (replaceLastTwoByMul m root ty inputs x k)))
      | None \<Rightarrow> None)"

definition mulPowerOfTwoRule :: rule where
  "mulPowerOfTwoRule m root ty inputs =
     (if length inputs = 2 \<and> lastIsConstant m inputs isPowerOf2
      then (let v = the (m_RConstant m (last inputs));
                (shift, m1) = create m root (ConstantOp_ofInt (exactLogBase2 v) ty);
                (shlOp, m2) = create m1 root (build_ShlOp m1 (inputs ! 0) shift)
            in Some (Inr (replaceOpWithNewOp m2 root (Variadic MulOp ty [shlOp]))))
      else None)"

text \<open>The order the spec gives for the common rules.\<close>

definition commonRules :: "OpClass \<Rightarrow> rule list" where
  "commonRules c = [identityRule c, idempotenceRule c, constantPairRule c, flattenRule c]"

subsection \<open>The shape of a rewrite\<close>

text \<open>
  Every rewrite creates a short list of new operations in front of the node and then
  replaces the node by one of the same class and type. \<open>rewriteKind\<close> lists the new
  operations and the new operand list each rule can produce.
\<close>

fun createAll :: "ir \<Rightarrow> Value \<Rightarrow> Operation list \<Rightarrow> ir" where
  "createAll m root [] = m"
| "createAll m root (d # ds) = createAll (snd (create m root d)) root ds"

definition rewriteResult :: "ir \<Rightarrow> Value \<Rightarrow> OpClass \<Rightarrow> IntegerType \<Rightarrow> Operation list
    \<Rightarrow> Value list \<Rightarrow> ir" where
  "rewriteResult m root c ty news ins =
     replaceOpWithNewOp (createAll m root news) root (Variadic c ty ins)"

inductive rewriteKind :: "ir \<Rightarrow> OpClass \<Rightarrow> Value list \<Rightarrow> Operation list \<Rightarrow> Value list \<Rightarrow> bool"
  for m :: ir and c :: OpClass and inputs :: "Value list" where
  dropLast: "2 \<le> length inputs \<Longrightarrow> rewriteKind m c inputs [] (drop_back 1 inputs)"
| dropLastTwo: "3 \<le> length inputs \<Longrightarrow> rewriteKind m c inputs [] (drop_back 2 inputs)"
| foldPair: "2 \<le> length inputs \<Longrightarrow>
     rewriteKind m c inputs [ConstantOp k] (drop_back 2 inputs @ [nextValue m])"
| double: "2 \<le> length inputs \<Longrightarrow>
     rewriteKind m c inputs [ConstantOp k, ShlOp t (last inputs) (nextValue m)]
       (drop_back 2 inputs @ [Suc (nextValue m)])"
| shlToMul: "2 \<le> length inputs \<Longrightarrow> getDefiningOp m (last inputs) = Some (ShlOp sty x rhs) \<Longrightarrow>
     x = inputs ! (length inputs - 2) \<Longrightarrow>
     rewriteKind m c inputs [ConstantOp k, Variadic MulOp t [x, nextValue m]]
       (drop_back 2 inputs @ [Suc (nextValue m)])"
| mulToMul: "2 \<le> length inputs \<Longrightarrow>
     getDefiningOp m (last inputs) = Some (Variadic MulOp mty [x, f1]) \<Longrightarrow>
     x = inputs ! (length inputs - 2) \<Longrightarrow>
     rewriteKind m c inputs [ConstantOp k, Variadic MulOp t [x, nextValue m]]
       (drop_back 2 inputs @ [Suc (nextValue m)])"
| toShift: "inputs = [x, cst] \<Longrightarrow>
     rewriteKind m c inputs [ConstantOp k, ShlOp t x (nextValue m)] [Suc (nextValue m)]"
| flatten: "inputs = pre @ x # post \<Longrightarrow> getDefiningOp m x = Some (Variadic c ty' ys) \<Longrightarrow>
     rewriteKind m c inputs [] (pre @ ys @ post)"

definition shaped :: "ir \<Rightarrow> Value \<Rightarrow> OpClass \<Rightarrow> IntegerType \<Rightarrow> Value list \<Rightarrow> ir \<Rightarrow> bool" where
  "shaped m root c ty inputs m' =
     (\<exists>news ins. rewriteKind m c inputs news ins \<and> m' = rewriteResult m root c ty news ins)"

text \<open>New operations with the values they define, numbered from \<open>n\<close> on.\<close>

fun numbered :: "nat \<Rightarrow> 'a list \<Rightarrow> (nat \<times> 'a) list" where
  "numbered n [] = []"
| "numbered n (d # ds) = (n, d) # numbered (Suc n) ds"

text \<open>One run of a pattern on some operation of the block, and any number of runs.\<close>

definition canonicalizeStep :: "ir \<Rightarrow> ir \<Rightarrow> bool" where
  "canonicalizeStep m m' = (\<exists>(root, d) \<in> set (body m). canonicalize m root = Inr (Some m'))"

subsection \<open>Well-formed blocks and the termination measure\<close>

text \<open>
  In a well-formed block every value is defined once, every operand is defined earlier in
  the block or not in it at all, every value in use is below \<open>nextValue\<close> and every
  variadic operation passes its verifier.
\<close>

fun dominance :: "(Value \<times> Operation) list \<Rightarrow> bool" where
  "dominance [] = True"
| "dominance (p # rest) =
     (fst p \<notin> fst ` set rest \<and>
      (\<forall>x \<in> set (getOperands (snd p)). x \<noteq> fst p \<and> x \<notin> fst ` set rest) \<and>
      dominance rest)"

definition variadicVerified :: "Operation \<Rightarrow> bool" where
  "variadicVerified d =
     (case d of Variadic c ty inputs \<Rightarrow> verifyUTVariadicRTLOp inputs = success | _ \<Rightarrow> True)"

definition wellFormed :: "ir \<Rightarrow> bool" where
  "wellFormed m =
     (valuesBelowNext m \<and> dominance (body m) \<and> (\<forall>(v, d) \<in> set (body m). variadicVerified d))"

text \<open>
  The weight of an operation, from the weights of its operands; a value the block does
  not define weighs 3, as a constant does. The measure of a block adds \<open>4 ^ weight\<close> over
  its operations, taken in block order.
\<close>

fun opWeight :: "(Value \<Rightarrow> nat) \<Rightarrow> Operation \<Rightarrow> nat" where
  "opWeight w (ConstantOp a) = 3"
| "opWeight w (Variadic c ty inputs) = length inputs + 1 + sum_list (map w inputs)"
| "opWeight w (ShlOp ty lhs rhs) = w lhs + w rhs"
| "opWeight w (ExtractOp ty input lowBit) = 1 + w input"
| "opWeight w (SExtOp ty input) = 1 + w input"
| "opWeight w (ZExtOp ty input) = 1 + w input"
| "opWeight w (OtherOp ty operands) = 3 + sum_list (map w operands)"

fun blockWeights :: "(Value \<times> Operation) list \<Rightarrow> (Value \<Rightarrow> nat) \<Rightarrow> Value \<Rightarrow> nat" where
  "blockWeights [] w = w"
| "blockWeights (p # rest) w = blockWeights rest (w(fst p := opWeight w (snd p)))"

fun blockMeasure :: "(Value \<times> Operation) list \<Rightarrow> (Value \<Rightarrow> nat) \<Rightarrow> nat" where
  "blockMeasure [] w = 0"
| "blockMeasure (p # rest) w =
     4 ^ opWeight w (snd p) + blockMeasure rest (w(fst p := opWeight w (snd p)))"

definition irMeasure :: "ir \<Rightarrow> nat" where
  "irMeasure m = blockMeasure (body m) (\<lambda>v. 3)"

subsection \<open>The fixed-point driver\<close>

text \<open>
  Modelled from the spec: the driver that applies the folds and patterns repeatedly is not
  in the source. It picks an operation of the block and either runs the pattern of its class
  or installs the result of its fold: a folded value replaces every use of the operation,
  which is erased; a folded attribute is materialised as a constant that takes the
  operation's place. A constant is never folded again.
\<close>

fun mapOperands :: "(Value \<Rightarrow> Value) \<Rightarrow> Operation \<Rightarrow> Operation" where
  "mapOperands f (ConstantOp a) = ConstantOp a"
| "mapOperands f (Variadic c ty inputs) = Variadic c ty (map f inputs)"
| "mapOperands f (ShlOp ty lhs rhs) = ShlOp ty (f lhs) (f rhs)"
| "mapOperands f (ExtractOp ty input lowBit) = ExtractOp ty (f input) lowBit"
| "mapOperands f (SExtOp ty input) = SExtOp ty (f input)"
| "mapOperands f (ZExtOp ty input) = ZExtOp ty (f input)"
| "mapOperands f (OtherOp ty operands) = OtherOp ty (map f operands)"

definition replaceOpWithValue :: "ir \<Rightarrow> Value \<Rightarrow> Value \<Rightarrow> ir" where
  "replaceOpWithValue m root x =
     m\<lparr>body := map (\<lambda>p. (fst p, mapOperands (\<lambda>y. if y = root then x else y) (snd p)))
                (filter (\<lambda>p. fst p \<noteq> root) (body m))\<rparr>"

text \<open>The fold hook of an operation; \<open>ConstantOp::fold\<close> returns the value attribute.\<close>

fun foldOp :: "ir \<Rightarrow> Operation \<Rightarrow> error + OpFoldResult" where
  "foldOp m (ConstantOp a) = Inr (FoldAttr a)"
| "foldOp m (Variadic AndOp ty inputs) = AndOp_fold m inputs"
| "foldOp m (Variadic OrOp ty inputs) = OrOp_fold m inputs"
| "foldOp m (Variadic XorOp ty inputs) = XorOp_fold ty inputs"
| "foldOp m (Variadic AddOp ty inputs) = AddOp_fold inputs"
| "foldOp m (Variadic MulOp ty inputs) = MulOp_fold m inputs"
| "foldOp m (ExtractOp ty input lowBit) = ExtractOp_fold m ty input lowBit"
| "foldOp m d = Inr NoFold"

definition isConstant :: "Operation \<Rightarrow> bool" where
  "isConstant d = (case d of ConstantOp a \<Rightarrow> True | _ \<Rightarrow> False)"

inductive simplifyStep :: "ir \<Rightarrow> ir \<Rightarrow> bool" where
  rewrite: "canonicalize m root = Inr (Some m') \<Longrightarrow> simplifyStep m m'"
| foldToValue: "getDefiningOp m root = Some d \<Longrightarrow> foldOp m d = Inr (FoldValue x) \<Longrightarrow>
     simplifyStep m (replaceOpWithValue m root x)"
| foldToConstant: "getDefiningOp m root = Some d \<Longrightarrow> \<not> isConstant d \<Longrightarrow>
     foldOp m d = Inr (FoldAttr a) \<Longrightarrow>
     simplifyStep m (replaceOpWithNewOp m root (ConstantOp a))"

subsection \<open>Example blocks\<close>

definition ex_annul :: ir where
  "ex_annul = \<lparr>body = [(10, OtherOp 8 []), (11, ConstantOp (APInt 8 0)),
     (12, ConstantOp (APInt 8 255)), (13, Variadic AndOp 8 [10, 11]),
     (14, Variadic AndOp 8 [11, 10]), (15, Variadic OrOp 8 [10, 12]),
     (16, Variadic MulOp 8 [10, 11])], nextValue = 17\<rparr>"

definition ex_xor :: ir where
  "ex_xor = \<lparr>body = [(0, OtherOp 8 []), (1, OtherOp 8 []),
     (2, Variadic XorOp 8 [0, 1, 1]), (3, Variadic XorOp 8 [1, 1])], nextValue = 4\<rparr>"

definition ex_extract :: ir where
  "ex_extract = \<lparr>body = [(0, ConstantOp (APInt 8 180)), (1, ExtractOp 8 0 0)], nextValue = 2\<rparr>"

definition ex_mul :: ir where
  "ex_mul = \<lparr>body = [(10, OtherOp 8 []), (11, ConstantOp (APInt 8 8)),
     (12, Variadic MulOp 8 [10, 11])], nextValue = 13\<rparr>"

definition ex_add :: ir where
  "ex_add = \<lparr>body = [(10, OtherOp 8 []), (11, ConstantOp (APInt 8 2)),
     (12, ShlOp 8 10 11), (13, Variadic AddOp 8 [10, 12]),
     (14, OtherOp 8 []), (15, ConstantOp (APInt 8 3)), (16, Variadic MulOp 8 [10, 15]),
     (17, Variadic AddOp 8 [10, 16]), (18, ShlOp 8 10 11),
     (19, Variadic AddOp 8 [10, 14, 18])], nextValue = 20\<rparr>"

definition ex_pair :: ir where
  "ex_pair = \<lparr>body = [(10, ConstantOp (APInt 8 3)), (11, ConstantOp (APInt 8 4)),
     (12, Variadic MulOp 8 [10, 11]), (13, OtherOp 8 []),
     (14, Variadic XorOp 8 [13, 10, 10]), (15, Variadic AddOp 8 [13, 10, 11])],
     nextValue = 16\<rparr>"

definition ex_order :: ir where
  "ex_order = \<lparr>body = [(10, ConstantOp (APInt 8 3)), (11, Variadic AddOp 8 [10, 10]),
     (12, OtherOp 8 []), (13, Variadic AndOp 8 [12, 12])], nextValue = 14\<rparr>"

definition ex_same :: ir where
  "ex_same = \<lparr>body = [(10, OtherOp 8 []), (11, Variadic XorOp 8 [10, 10]),
     (12, ConstantOp (APInt 8 5)), (13, Variadic XorOp 8 [12, 12]),
     (14, Variadic AndOp 8 [10])], nextValue = 15\<rparr>"

definition ex_types :: ir where
  "ex_types = \<lparr>body = [(10, OtherOp 8 []), (11, ConstantOp (APInt 8 255)),
     (12, Variadic AndOp 8 [10, 10, 11]), (13, OtherOp 4 [12])], nextValue = 14\<rparr>"

definition ex_types1 :: ir where
  "ex_types1 = \<lparr>body = [(10, OtherOp 8 []), (11, ConstantOp (APInt 8 255)),
     (12, Variadic AndOp 8 [10, 10]), (13, OtherOp 4 [12])], nextValue = 14\<rparr>"

definition ex_types2 :: ir where
  "ex_types2 = \<lparr>body = [(10, OtherOp 8 []), (11, ConstantOp (APInt 8 255)),
     (12, Variadic AndOp 8 [10]), (13, OtherOp 4 [12])], nextValue = 14\<rparr>"

definition ex_term :: ir where
  "ex_term = \<lparr>body = [(10, OtherOp 8 []), (11, OtherOp 8 []), (12, Variadic AddOp 8 [10, 11]),
     (13, Variadic AddOp 8 [12, 10]), (14, OtherOp 8 [13])], nextValue = 15\<rparr>"

definition ex_term' :: ir where
  "ex_term' = \<lparr>body = [(10, OtherOp 8 []), (11, OtherOp 8 []), (12, Variadic AddOp 8 [10, 11]),
     (13, Variadic AddOp 8 [10, 11, 10]), (14, OtherOp 8 [13])], nextValue = 15\<rparr>"

section \<open>Properties\<close>

subsection \<open>Verifiers\<close>

text \<open>
  C7. \<open>verifyExtOp\<close> succeeds exactly when the result is strictly wider than the operand,
  \<open>verifyExtractOp\<close> (for a result width of at least 1) exactly when
  \<open>lowBit + resultWidth \<le> operand width\<close>; otherwise each returns a failure carrying a
  diagnostic. Both are total: they return a result and never abort.
\<close>

theorem verifiers_exact:
  "(verifyExtOp srcType dstType = success \<longleftrightarrow> srcType < dstType) \<and>
   (\<not> srcType < dstType \<longrightarrow> (\<exists>msg. verifyExtOp srcType dstType = failure msg)) \<and>
   (1 \<le> dstWidth \<longrightarrow>
      (verifyExtractOp srcWidth dstWidth lowBit = success \<longleftrightarrow> lowBit + dstWidth \<le> srcWidth) \<and>
      (\<not> lowBit + dstWidth \<le> srcWidth \<longrightarrow>
         (\<exists>msg. verifyExtractOp srcWidth dstWidth lowBit = failure msg)))"
  by (auto simp: verifyExtOp_def verifyExtractOp_def)

theorem verifiers_exact_witness:
  "verifyExtOp 4 8 = success \<and> (\<exists>msg. verifyExtOp 8 8 = failure msg) \<and>
   verifyExtractOp 8 4 2 = success \<and> (\<exists>msg. verifyExtractOp 8 4 5 = failure msg)"
  using verifiers_exact [of 4 8 4 8 2] verifiers_exact [of 8 8 4 8 5]
  by simp

subsection \<open>Folds\<close>

text \<open>
  C4. The folds of \<open>AndOp\<close> and \<open>MulOp\<close> return the last operand when it is the
  constant 0, and the fold of \<open>OrOp\<close> returns the last operand when it is the all-ones
  constant. On a node with two or more operands they produce no result in every other
  case, whatever the operands before the last one are: only the last operand is looked
  at.
\<close>

theorem annulment_fold_last_operand:
  "inputs \<noteq> [] \<Longrightarrow>
   (lastIsConstant m inputs isNullValue \<longrightarrow>
      AndOp_fold m inputs = Inr (FoldValue (last inputs)) \<and>
      MulOp_fold m inputs = Inr (FoldValue (last inputs))) \<and>
   (lastIsConstant m inputs isAllOnesValue \<longrightarrow>
      OrOp_fold m inputs = Inr (FoldValue (last inputs))) \<and>
   (2 \<le> length inputs \<longrightarrow>
      AndOp_fold m inputs =
        Inr (if lastIsConstant m inputs isNullValue then FoldValue (last inputs) else NoFold) \<and>
      MulOp_fold m inputs =
        Inr (if lastIsConstant m inputs isNullValue then FoldValue (last inputs) else NoFold) \<and>
      OrOp_fold m inputs =
        Inr (if lastIsConstant m inputs isAllOnesValue then FoldValue (last inputs)
             else NoFold))"
proof (cases "length inputs = 1")
  case True
  then obtain x where "inputs = [x]"
    by (cases inputs) auto
  then show ?thesis
    by (simp add: AndOp_fold_def MulOp_fold_def OrOp_fold_def)
next
  case False
  assume "inputs \<noteq> []"
  with False show ?thesis
    by (auto simp: AndOp_fold_def MulOp_fold_def OrOp_fold_def lastIsConstant_def
          split: option.splits)
qed

lemma m_RConstant_ex_annul:
  "m_RConstant ex_annul 10 = None" "m_RConstant ex_annul 11 = Some (APInt 8 0)"
  "m_RConstant ex_annul 12 = Some (APInt 8 255)"
  by (simp_all add: m_RConstant_def getDefiningOp_def ex_annul_def)

theorem annulment_fold_last_operand_witness:
  "AndOp_fold ex_annul [10, 11] = Inr (FoldValue 11) \<and>
   AndOp_fold ex_annul [11, 10] = Inr NoFold \<and>
   MulOp_fold ex_annul [10, 11] = Inr (FoldValue 11) \<and>
   OrOp_fold ex_annul [10, 12] = Inr (FoldValue 12)"
  using annulment_fold_last_operand [of "[10, 11]" ex_annul]
        annulment_fold_last_operand [of "[11, 10]" ex_annul]
        annulment_fold_last_operand [of "[10, 12]" ex_annul]
  by (simp add: lastIsConstant_def m_RConstant_ex_annul isNullValue_def isAllOnesValue_def)

text \<open>
  C5. A \<open>XorOp\<close> with exactly two operands that are the same value folds to the constant
  0. The idempotence rule of the rewrite pattern (reached when the last operand is not the
  constant 0) drops both copies when the node has at least three operands; on a
  two-operand node it is never applied: the pattern stops at its assertion.
\<close>

theorem xor_idempotence_fold_and_rewrite:
  "XorOp_fold ty [x, x] = Inr (FoldAttr (APInt ty 0)) \<and>
   (2 \<le> length inputs \<and> inputs ! (length inputs - 1) = inputs ! (length inputs - 2) \<and>
    \<not> lastIsConstant m inputs isNullValue \<longrightarrow>
      XorOp_matchAndRewrite m root ty inputs =
        (if 3 \<le> length inputs
         then Inr (Some (replaceOpWithNewOp m root (Variadic XorOp ty (drop_back 2 inputs))))
         else Inl AssertionFailure))"
  by (auto simp: XorOp_fold_def XorOp_matchAndRewrite_def)

theorem xor_idempotence_fold_and_rewrite_witness:
  "XorOp_fold 8 [1, 1] = Inr (FoldAttr (APInt 8 0)) \<and>
   XorOp_matchAndRewrite ex_xor 2 8 [0, 1, 1] =
     Inr (Some \<lparr>body = [(0, OtherOp 8 []), (1, OtherOp 8 []),
       (2, Variadic XorOp 8 [0]), (3, Variadic XorOp 8 [1, 1])], nextValue = 4\<rparr>) \<and>
   XorOp_matchAndRewrite ex_xor 3 8 [1, 1] = Inl AssertionFailure"
  using xor_idempotence_fold_and_rewrite [of 8 1 "[0, 1, 1]" ex_xor 2]
        xor_idempotence_fold_and_rewrite [of 8 1 "[1, 1]" ex_xor 3]
  by (simp add: lastIsConstant_def m_RConstant_def getDefiningOp_def ex_xor_def
        replaceOpWithNewOp_def drop_back_def)

lemma extractBits_full: "a < 2 ^ w \<Longrightarrow> extractBits a 0 w = a"
  by (simp add: extractBits_def)

text \<open>
  C9. For an \<open>ExtractOp\<close> that passes its verifier, with a result width of at least 1,
  equal operand and result types force \<open>lowBit = 0\<close>; the fold returns the operand, and
  every value of that width equals its bits from \<open>lowBit\<close> cut to the result width.
  Without the verifier the fold is not value-correct: some unverified extract of equal
  width folds to its operand although the extracted bits differ.
\<close>

theorem extract_full_width_fold:
  "(verifyExtractOp (getType m input) ty lowBit = success \<and> 1 \<le> ty \<and> getType m input = ty \<longrightarrow>
      lowBit = 0 \<and> ExtractOp_fold m ty input lowBit = Inr (FoldValue input) \<and>
      (\<forall>a. a < 2 ^ ty \<longrightarrow> extractBits a lowBit ty = a)) \<and>
   (\<exists>m' ty' input' lowBit' a.
      verifyExtractOp (getType m' input') ty' lowBit' \<noteq> success \<and> getType m' input' = ty' \<and>
      m_RConstant m' input' = Some (APInt ty' a) \<and> a < 2 ^ ty' \<and>
      ExtractOp_fold m' ty' input' lowBit' = Inr (FoldValue input') \<and>
      extractBits a lowBit' ty' \<noteq> a)"
proof (rule conjI, rule impI)
  assume h: "verifyExtractOp (getType m input) ty lowBit = success \<and> 1 \<le> ty \<and> getType m input = ty"
  then have "lowBit = 0"
    by (auto simp: verifyExtractOp_def split: if_splits)
  with h show "lowBit = 0 \<and> ExtractOp_fold m ty input lowBit = Inr (FoldValue input) \<and>
      (\<forall>a. a < 2 ^ ty \<longrightarrow> extractBits a lowBit ty = a)"
    by (simp add: ExtractOp_fold_def extractBits_full)
next
  let ?m = "\<lparr>body = [(0, ConstantOp (APInt 8 2))], nextValue = 1\<rparr>"
  have "verifyExtractOp (getType ?m 0) 8 1 \<noteq> success \<and> getType ?m 0 = 8 \<and>
      m_RConstant ?m 0 = Some (APInt 8 2) \<and> (2::nat) < 2 ^ 8 \<and>
      ExtractOp_fold ?m 8 0 1 = Inr (FoldValue 0) \<and> extractBits 2 1 8 \<noteq> 2"
    by (simp add: verifyExtractOp_def getType_def getDefiningOp_def m_RConstant_def
          ExtractOp_fold_def extractBits_def)
  then show "\<exists>m' ty' input' lowBit' a.
      verifyExtractOp (getType m' input') ty' lowBit' \<noteq> success \<and> getType m' input' = ty' \<and>
      m_RConstant m' input' = Some (APInt ty' a) \<and> a < 2 ^ ty' \<and>
      ExtractOp_fold m' ty' input' lowBit' = Inr (FoldValue input') \<and>
      extractBits a lowBit' ty' \<noteq> a"
    by blast
qed

theorem extract_full_width_fold_witness:
  "verifyExtractOp (getType ex_extract 0) 8 0 = success \<and> getType ex_extract 0 = 8 \<and>
   ExtractOp_fold ex_extract 8 0 0 = Inr (FoldValue 0) \<and> extractBits 180 0 8 = 180"
  using extract_full_width_fold [of ex_extract 0 8 0]
  by (simp add: getType_def getDefiningOp_def ex_extract_def verifyExtractOp_def)

subsection \<open>The primitives of the rewriter\<close>

lemma map_of_insertBefore:
  "n \<notin> fst ` set b \<Longrightarrow> map_of (insertBefore r (n, d) b) = (map_of b)(n \<mapsto> d)"
  by (induction b) (auto simp: fun_upd_twist)

lemma set_insertBefore: "set (insertBefore r e b) = insert e (set b)"
  by (induction b) auto

lemma fresh_not_defined: "valuesBelowNext m \<Longrightarrow> nextValue m \<notin> fst ` set (body m)"
  by (auto simp: valuesBelowNext_def)

lemma getDefiningOp_create:
  "valuesBelowNext m \<Longrightarrow>
   getDefiningOp (snd (create m root d)) = (getDefiningOp m)(nextValue m \<mapsto> d)"
  by (auto simp: getDefiningOp_def create_def map_of_insertBefore fresh_not_defined)

lemma create_fst [simp]: "fst (create m root d) = nextValue m"
  by (simp add: create_def)

lemma nextValue_create [simp]: "nextValue (snd (create m root d)) = Suc (nextValue m)"
  by (simp add: create_def)

lemma getDefiningOp_replace:
  "getDefiningOp (replaceOpWithNewOp m root d) = (getDefiningOp m)(root \<mapsto> d)"
  by (rule ext) (simp add: getDefiningOp_def replaceOpWithNewOp_def update_conv')

lemma nextValue_replace [simp]: "nextValue (replaceOpWithNewOp m root d) = nextValue m"
  by (simp add: replaceOpWithNewOp_def)

lemma defined_below:
  "valuesBelowNext m \<Longrightarrow> getDefiningOp m v = Some d \<Longrightarrow>
   v < nextValue m \<and> (\<forall>x \<in> set (getOperands d). x < nextValue m)"
  by (auto simp: valuesBelowNext_def getDefiningOp_def dest!: map_of_SomeD)

lemma valuesBelowNext_create:
  "valuesBelowNext m \<Longrightarrow> \<forall>x \<in> set (getOperands d). x < nextValue m \<Longrightarrow>
   valuesBelowNext (snd (create m root d))"
  by (fastforce simp: valuesBelowNext_def create_def set_insertBefore less_Suc_eq)

lemma set_update_subset: "set (AList.update k v al) \<subseteq> insert (k, v) (set al)"
  by (induction al) auto

lemma valuesBelowNext_replace:
  "valuesBelowNext m \<Longrightarrow> root < nextValue m \<Longrightarrow> \<forall>x \<in> set (getOperands d). x < nextValue m \<Longrightarrow>
   valuesBelowNext (replaceOpWithNewOp m root d)"
  using set_update_subset [of root d "body m"]
  by (fastforce simp: valuesBelowNext_def replaceOpWithNewOp_def)

subsection \<open>Multiplication by a power of two\<close>

lemma countPopulation_pow2: "countPopulation (2 ^ k) = 1"
proof (induction k)
  case 0
  show ?case by (simp add: countPopulation.simps)
next
  case (Suc k)
  have "countPopulation (2 ^ Suc k) = countPopulation (2 ^ k)"
    by (subst countPopulation.simps) simp
  with Suc show ?case by simp
qed

lemma logBase2_pow2: "logBase2 (2 ^ k) = k"
proof (induction k)
  case 0
  show ?case by (simp add: logBase2.simps)
next
  case (Suc k)
  have "(2::nat) ^ Suc k \<ge> 2" by simp
  then have "logBase2 (2 ^ Suc k) = Suc (logBase2 (2 ^ k))"
    by (subst logBase2.simps) simp
  with Suc show ?case by simp
qed

lemma exactLogBase2_pow2: "exactLogBase2 (APInt w (2 ^ k)) = int k"
  by (simp add: exactLogBase2_def isPowerOf2_def countPopulation_pow2 logBase2_pow2)

lemma less_two_power: "k < w \<Longrightarrow> k < 2 ^ w" for k w :: nat
proof -
  assume "k < w"
  moreover have "w < 2 ^ w" by (rule less_exp)
  ultimately show ?thesis by (rule less_trans)
qed

lemma APInt_ofInt_small: "k < 2 ^ w \<Longrightarrow> APInt_ofInt w (int k) = APInt w k"
proof -
  assume "k < 2 ^ w"
  then have "int k mod 2 ^ w = int k"
    by (metis mod_less of_nat_mod of_nat_numeral of_nat_power)
  then show ?thesis by (simp add: APInt_ofInt_def)
qed

text \<open>
  C3. A two-operand \<open>MulOp\<close> whose last operand is the constant \<open>2 ^ k\<close>, \<open>k\<close> below
  the width, is rewritten by the first rule of the pattern (so also for \<open>k = 0\<close>, the
  constant 1, which the identity rule never sees) into a single-operand \<open>MulOp\<close> around
  \<open>shl(x, k)\<close>, and the fold of that node returns the shift itself.
\<close>

theorem mul_power_of_two_to_shift:
  assumes wf: "valuesBelowNext m"
    and root: "getDefiningOp m root = Some (Variadic MulOp ty [x, c])"
    and cst: "m_RConstant m c = Some (APInt ty (2 ^ k))"
    and k: "k < ty"
  shows "\<exists>m' shlOp shift.
     MulOp_matchAndRewrite m root ty [x, c] = Inr (Some m') \<and>
     getDefiningOp m' root = Some (Variadic MulOp ty [shlOp]) \<and>
     getDefiningOp m' shlOp = Some (ShlOp (getType m x) x shift) \<and>
     m_RConstant m' shift = Some (APInt ty k) \<and>
     MulOp_fold m' [shlOp] = Inr (FoldValue shlOp)"
proof -
  let ?n = "nextValue m"
  let ?m1 = "snd (create m root (ConstantOp (APInt ty k)))"
  let ?m2 = "snd (create ?m1 root (ShlOp (getType m x) x ?n))"
  let ?m' = "replaceOpWithNewOp ?m2 root (Variadic MulOp ty [Suc ?n])"
  from defined_below [OF wf root] have lt: "root < ?n" "x < ?n" "c < ?n" by auto
  have wf1: "valuesBelowNext ?m1"
    by (rule valuesBelowNext_create [OF wf]) simp
  have d1: "getDefiningOp ?m1 = (getDefiningOp m)(?n \<mapsto> ConstantOp (APInt ty k))"
    by (rule getDefiningOp_create [OF wf])
  have ty1: "getType ?m1 x = getType m x"
    using lt by (simp add: getType_def d1)
  have d2: "getDefiningOp ?m2 = (getDefiningOp ?m1)(Suc ?n \<mapsto> ShlOp (getType m x) x ?n)"
    using getDefiningOp_create [OF wf1] by simp
  have pow: "lastIsConstant m [x, c] isPowerOf2"
    by (simp add: lastIsConstant_def cst isPowerOf2_def countPopulation_pow2)
  have shift: "ConstantOp_ofInt (exactLogBase2 (APInt ty (2 ^ k))) ty = ConstantOp (APInt ty k)"
    by (simp add: ConstantOp_ofInt_def exactLogBase2_pow2 APInt_ofInt_small less_two_power [OF k])
  have res: "MulOp_matchAndRewrite m root ty [x, c] = Inr (Some ?m')"
    using pow
    by (simp add: MulOp_matchAndRewrite_def cst shift Let_def split_beta build_ShlOp_def ty1)
  have "getDefiningOp ?m' root = Some (Variadic MulOp ty [Suc ?n])"
    by (simp add: getDefiningOp_replace)
  moreover have "getDefiningOp ?m' (Suc ?n) = Some (ShlOp (getType m x) x ?n)"
    using lt by (simp add: getDefiningOp_replace d2)
  moreover have "m_RConstant ?m' ?n = Some (APInt ty k)"
    using lt by (simp add: m_RConstant_def getDefiningOp_replace d2 d1)
  moreover have "MulOp_fold ?m' [Suc ?n] = Inr (FoldValue (Suc ?n))"
    by (simp add: MulOp_fold_def)
  ultimately show ?thesis using res by blast
qed

theorem mul_power_of_two_to_shift_witness:
  "valuesBelowNext ex_mul \<and> getDefiningOp ex_mul 12 = Some (Variadic MulOp 8 [10, 11]) \<and>
   m_RConstant ex_mul 11 = Some (APInt 8 (2 ^ 3)) \<and> (3::nat) < 8 \<and>
   (\<exists>m' shlOp shift.
     MulOp_matchAndRewrite ex_mul 12 8 [10, 11] = Inr (Some m') \<and>
     getDefiningOp m' 12 = Some (Variadic MulOp 8 [shlOp]) \<and>
     getDefiningOp m' shlOp = Some (ShlOp (getType ex_mul 10) 10 shift) \<and>
     m_RConstant m' shift = Some (APInt 8 3) \<and>
     MulOp_fold m' [shlOp] = Inr (FoldValue shlOp))"
proof -
  have h: "valuesBelowNext ex_mul" "getDefiningOp ex_mul 12 = Some (Variadic MulOp 8 [10, 11])"
    "m_RConstant ex_mul 11 = Some (APInt 8 (2 ^ 3))" "(3::nat) < 8"
    by (simp_all add: valuesBelowNext_def ex_mul_def getDefiningOp_def m_RConstant_def)
  from mul_power_of_two_to_shift [OF h] h show ?thesis by blast
qed

subsection \<open>The two rules of addition\<close>

lemma APInt_one: "1 \<le> w \<Longrightarrow> APInt_ofInt w 1 = APInt w 1"
proof -
  assume "1 \<le> w"
  then have "(1::int) < 2 ^ w"
    by (simp add: one_less_power)
  then have "(1::int) mod 2 ^ w = 1"
    by (intro mod_pos_pos_trivial) simp_all
  then show ?thesis
    unfolding APInt_ofInt_def by simp
qed

lemma APInt_shl_one_plus_one:
  assumes "1 \<le> getBitWidth c"
  shows "APInt_add (APInt_shl (APInt_ofInt (getBitWidth c) 1) c) (APInt_ofInt (getBitWidth c) 1) =
         Inr (APInt (getBitWidth c) ((2 ^ getZExtValue c + 1) mod 2 ^ getBitWidth c))"
proof (cases "getZExtValue c \<ge> getBitWidth c")
  case True
  then have "(2::nat) ^ getZExtValue c mod 2 ^ getBitWidth c = 0"
    by (simp add: le_imp_power_dvd mod_eq_0_iff_dvd)
  then have "((2::nat) ^ getZExtValue c + 1) mod 2 ^ getBitWidth c = 1 mod 2 ^ getBitWidth c"
    by (metis add_cancel_right_left mod_add_left_eq)
  with True assms show ?thesis
    by (simp add: APInt_one APInt_shl_def APInt_add_def)
next
  case False
  have "((2::nat) ^ getZExtValue c mod 2 ^ getBitWidth c + 1) mod 2 ^ getBitWidth c =
        (2 ^ getZExtValue c + 1) mod 2 ^ getBitWidth c"
    by (rule mod_add_left_eq)
  with False assms show ?thesis
    by (simp add: APInt_one APInt_shl_def APInt_add_def)
qed

lemma APInt_plus_one:
  assumes "1 \<le> getBitWidth c"
  shows "APInt_add c (APInt_ofInt (getBitWidth c) 1) =
         Inr (APInt (getBitWidth c) ((getZExtValue c + 1) mod 2 ^ getBitWidth c))"
  using assms by (simp add: APInt_one APInt_add_def)

lemma replaceLastTwoByMul_result:
  assumes wf: "valuesBelowNext m" and r: "root < nextValue m" and x: "x < nextValue m"
  shows "getDefiningOp (replaceLastTwoByMul m root ty inputs x k) root =
           Some (Variadic AddOp ty (drop_back 2 inputs @ [Suc (nextValue m)])) \<and>
         getDefiningOp (replaceLastTwoByMul m root ty inputs x k) (Suc (nextValue m)) =
           Some (Variadic MulOp (getType m x) [x, nextValue m]) \<and>
         m_RConstant (replaceLastTwoByMul m root ty inputs x k) (nextValue m) = Some k"
proof -
  let ?n = "nextValue m"
  let ?m1 = "snd (create m root (ConstantOp k))"
  have wf1: "valuesBelowNext ?m1"
    by (rule valuesBelowNext_create [OF wf]) simp
  have d1: "getDefiningOp ?m1 = (getDefiningOp m)(?n \<mapsto> ConstantOp k)"
    by (rule getDefiningOp_create [OF wf])
  have ty1: "getType ?m1 x = getType m x"
    using x by (simp add: getType_def d1)
  let ?m2 = "snd (create ?m1 root (Variadic MulOp (getType m x) [x, ?n]))"
  have d2: "getDefiningOp ?m2 =
      (getDefiningOp ?m1)(Suc ?n \<mapsto> Variadic MulOp (getType m x) [x, ?n])"
    using getDefiningOp_create [OF wf1] by simp
  have eq: "replaceLastTwoByMul m root ty inputs x k =
      replaceOpWithNewOp ?m2 root (Variadic AddOp ty (drop_back 2 inputs @ [Suc ?n]))"
    by (simp add: replaceLastTwoByMul_def split_beta build_MulOp_def ty1)
  show ?thesis
    using r by (simp add: eq getDefiningOp_replace d2 d1 m_RConstant_def)
qed

text \<open>
  C6. For an \<open>AddOp\<close> with distinct last two operands: when the last operand is
  \<open>shl(x, c)\<close> with a constant \<open>c\<close>, the pair is replaced by \<open>mul(x, (1 << c) + 1)\<close>
  exactly when \<open>x\<close> is the operand immediately before it; when the last operand is a
  two-operand \<open>mul(x, c)\<close> with a constant \<open>c\<close>, the pair is replaced by
  \<open>mul(x, c + 1)\<close> exactly when \<open>x\<close> is the operand immediately before it. The new
  constants are computed in the width of \<open>c\<close>. When \<open>x\<close> is not the immediately
  preceding operand neither rule fires, wherever else \<open>x\<close> occurs, and the pattern goes
  on to flattening.
\<close>

theorem add_shifted_or_multiplied_operand:
  assumes wf: "valuesBelowNext m"
    and root: "getDefiningOp m root = Some (Variadic AddOp ty inputs)"
    and len: "2 \<le> length inputs"
    and neq: "inputs ! (length inputs - 1) \<noteq> inputs ! (length inputs - 2)"
    and w: "1 \<le> getBitWidth c"
  shows "(getDefiningOp m (inputs ! (length inputs - 1)) = Some (ShlOp sty lhs rhs) \<and>
          m_RConstant m rhs = Some c \<longrightarrow>
            (if lhs = inputs ! (length inputs - 2)
             then \<exists>m' mulOp k.
                    AddOp_matchAndRewrite m root ty inputs = Inr (Some m') \<and>
                    getDefiningOp m' root =
                      Some (Variadic AddOp ty (drop_back 2 inputs @ [mulOp])) \<and>
                    getDefiningOp m' mulOp = Some (Variadic MulOp (getType m lhs) [lhs, k]) \<and>
                    m_RConstant m' k =
                      Some (APInt (getBitWidth c) ((2 ^ getZExtValue c + 1) mod 2 ^ getBitWidth c))
             else AddOp_matchAndRewrite m root ty inputs =
                    Inr (tryFlatteningOperands m AddOp root ty inputs))) \<and>
         (getDefiningOp m (inputs ! (length inputs - 1)) = Some (Variadic MulOp mty [f0, f1]) \<and>
          m_RConstant m f1 = Some c \<longrightarrow>
            (if f0 = inputs ! (length inputs - 2)
             then \<exists>m' mulOp k.
                    AddOp_matchAndRewrite m root ty inputs = Inr (Some m') \<and>
                    getDefiningOp m' root =
                      Some (Variadic AddOp ty (drop_back 2 inputs @ [mulOp])) \<and>
                    getDefiningOp m' mulOp = Some (Variadic MulOp (getType m f0) [f0, k]) \<and>
                    m_RConstant m' k =
                      Some (APInt (getBitWidth c) ((getZExtValue c + 1) mod 2 ^ getBitWidth c))
             else AddOp_matchAndRewrite m root ty inputs =
                    Inr (tryFlatteningOperands m AddOp root ty inputs)))"
proof (intro conjI impI)
  assume h: "getDefiningOp m (inputs ! (length inputs - 1)) = Some (ShlOp sty lhs rhs) \<and>
          m_RConstant m rhs = Some c"
  from len have last: "last inputs = inputs ! (length inputs - 1)"
    by (cases inputs) (auto simp: last_conv_nth)
  have nc: "m_RConstant m (inputs ! (length inputs - 1)) = None"
    using h by (simp add: m_RConstant_def)
  have pre: "\<not> lastIsConstant m inputs isNullValue" "matchConstantPair m inputs = None"
    using nc by (simp_all add: lastIsConstant_def matchConstantPair_def last)
  show "if lhs = inputs ! (length inputs - 2)
     then \<exists>m' mulOp k.
            AddOp_matchAndRewrite m root ty inputs = Inr (Some m') \<and>
            getDefiningOp m' root = Some (Variadic AddOp ty (drop_back 2 inputs @ [mulOp])) \<and>
            getDefiningOp m' mulOp = Some (Variadic MulOp (getType m lhs) [lhs, k]) \<and>
            m_RConstant m' k =
              Some (APInt (getBitWidth c) ((2 ^ getZExtValue c + 1) mod 2 ^ getBitWidth c))
     else AddOp_matchAndRewrite m root ty inputs =
            Inr (tryFlatteningOperands m AddOp root ty inputs)"
  proof (cases "lhs = inputs ! (length inputs - 2)")
    case True
    then have ms: "matchAddShl m inputs = Some (lhs, c)"
      using h by (simp add: matchAddShl_def)
    let ?k = "APInt (getBitWidth c) ((2 ^ getZExtValue c + 1) mod 2 ^ getBitWidth c)"
    have res: "AddOp_matchAndRewrite m root ty inputs =
        Inr (Some (replaceLastTwoByMul m root ty inputs lhs ?k))"
      using len neq pre ms
      by (simp add: AddOp_matchAndRewrite_def APInt_shl_one_plus_one [OF w])
    from defined_below [OF wf root] have r: "root < nextValue m" by simp
    from defined_below [OF wf] h have "lhs < nextValue m" by fastforce
    from replaceLastTwoByMul_result [OF wf r this, of ty inputs ?k] res
    have "\<exists>m' mulOp k.
            AddOp_matchAndRewrite m root ty inputs = Inr (Some m') \<and>
            getDefiningOp m' root = Some (Variadic AddOp ty (drop_back 2 inputs @ [mulOp])) \<and>
            getDefiningOp m' mulOp = Some (Variadic MulOp (getType m lhs) [lhs, k]) \<and>
            m_RConstant m' k = Some ?k"
      by blast
    then show ?thesis
      by (subst if_P [OF True])
  next
    case False
    then have "matchAddShl m inputs = None" "matchAddMul m inputs = None"
      using h by (simp_all add: matchAddShl_def matchAddMul_def)
    with False len neq pre show ?thesis
      by (simp add: AddOp_matchAndRewrite_def)
  qed
next
  assume h: "getDefiningOp m (inputs ! (length inputs - 1)) = Some (Variadic MulOp mty [f0, f1]) \<and>
          m_RConstant m f1 = Some c"
  from len have last: "last inputs = inputs ! (length inputs - 1)"
    by (cases inputs) (auto simp: last_conv_nth)
  have nc: "m_RConstant m (inputs ! (length inputs - 1)) = None"
    using h by (simp add: m_RConstant_def)
  have pre: "\<not> lastIsConstant m inputs isNullValue" "matchConstantPair m inputs = None"
    "matchAddShl m inputs = None"
    using nc h by (simp_all add: lastIsConstant_def matchConstantPair_def last matchAddShl_def)
  show "if f0 = inputs ! (length inputs - 2)
     then \<exists>m' mulOp k.
            AddOp_matchAndRewrite m root ty inputs = Inr (Some m') \<and>
            getDefiningOp m' root = Some (Variadic AddOp ty (drop_back 2 inputs @ [mulOp])) \<and>
            getDefiningOp m' mulOp = Some (Variadic MulOp (getType m f0) [f0, k]) \<and>
            m_RConstant m' k =
              Some (APInt (getBitWidth c) ((getZExtValue c + 1) mod 2 ^ getBitWidth c))
     else AddOp_matchAndRewrite m root ty inputs =
            Inr (tryFlatteningOperands m AddOp root ty inputs)"
  proof (cases "f0 = inputs ! (length inputs - 2)")
    case True
    then have ms: "matchAddMul m inputs = Some (f0, c)"
      using h by (simp add: matchAddMul_def)
    let ?k = "APInt (getBitWidth c) ((getZExtValue c + 1) mod 2 ^ getBitWidth c)"
    have res: "AddOp_matchAndRewrite m root ty inputs =
        Inr (Some (replaceLastTwoByMul m root ty inputs f0 ?k))"
      using len neq pre ms
      by (simp add: AddOp_matchAndRewrite_def APInt_plus_one [OF w])
    from defined_below [OF wf root] have r: "root < nextValue m" by simp
    from defined_below [OF wf] h have "f0 < nextValue m" by fastforce
    from replaceLastTwoByMul_result [OF wf r this, of ty inputs ?k] res
    have "\<exists>m' mulOp k.
            AddOp_matchAndRewrite m root ty inputs = Inr (Some m') \<and>
            getDefiningOp m' root = Some (Variadic AddOp ty (drop_back 2 inputs @ [mulOp])) \<and>
            getDefiningOp m' mulOp = Some (Variadic MulOp (getType m f0) [f0, k]) \<and>
            m_RConstant m' k = Some ?k"
      by blast
    then show ?thesis
      by (subst if_P [OF True])
  next
    case False
    then have "matchAddMul m inputs = None"
      using h by (simp add: matchAddMul_def)
    with False len neq pre show ?thesis
      by (simp add: AddOp_matchAndRewrite_def)
  qed
qed

theorem add_shifted_or_multiplied_operand_witness:
  "valuesBelowNext ex_add \<and>
   (\<exists>m' mulOp k.
      AddOp_matchAndRewrite ex_add 13 8 [10, 12] = Inr (Some m') \<and>
      getDefiningOp m' 13 = Some (Variadic AddOp 8 [mulOp]) \<and>
      getDefiningOp m' mulOp = Some (Variadic MulOp 8 [10, k]) \<and>
      m_RConstant m' k = Some (APInt 8 5)) \<and>
   (\<exists>m' mulOp k.
      AddOp_matchAndRewrite ex_add 17 8 [10, 16] = Inr (Some m') \<and>
      getDefiningOp m' 17 = Some (Variadic AddOp 8 [mulOp]) \<and>
      getDefiningOp m' mulOp = Some (Variadic MulOp 8 [10, k]) \<and>
      m_RConstant m' k = Some (APInt 8 4)) \<and>
   AddOp_matchAndRewrite ex_add 19 8 [10, 14, 18] =
     Inr (tryFlatteningOperands ex_add AddOp 19 8 [10, 14, 18])"
proof -
  have wf: "valuesBelowNext ex_add"
    by (simp add: valuesBelowNext_def ex_add_def)
  have d: "getDefiningOp ex_add 13 = Some (Variadic AddOp 8 [10, 12])"
    "getDefiningOp ex_add 17 = Some (Variadic AddOp 8 [10, 16])"
    "getDefiningOp ex_add 19 = Some (Variadic AddOp 8 [10, 14, 18])"
    "getDefiningOp ex_add 12 = Some (ShlOp 8 10 11)"
    "getDefiningOp ex_add 16 = Some (Variadic MulOp 8 [10, 15])"
    "getDefiningOp ex_add 18 = Some (ShlOp 8 10 11)"
    "m_RConstant ex_add 11 = Some (APInt 8 2)" "m_RConstant ex_add 15 = Some (APInt 8 3)"
    "getType ex_add 10 = 8"
    by (simp_all add: getDefiningOp_def ex_add_def m_RConstant_def getType_def)
  have a: "(2::nat) \<le> length [10::nat, 12]" "[10::nat, 12] ! (length [10::nat, 12] - 1) \<noteq>
      [10, 12] ! (length [10::nat, 12] - 2)" "1 \<le> getBitWidth (APInt 8 2)"
    by simp_all
  have b: "(2::nat) \<le> length [10::nat, 16]" "[10::nat, 16] ! (length [10::nat, 16] - 1) \<noteq>
      [10, 16] ! (length [10::nat, 16] - 2)" "1 \<le> getBitWidth (APInt 8 3)"
    by simp_all
  have c: "(2::nat) \<le> length [10::nat, 14, 18]"
    "[10::nat, 14, 18] ! (length [10::nat, 14, 18] - 1) \<noteq>
      [10, 14, 18] ! (length [10::nat, 14, 18] - 2)"
    by simp_all
  from add_shifted_or_multiplied_operand [OF wf d(1) a, of 8 10 11 8 10 15]
       add_shifted_or_multiplied_operand [OF wf d(2) b, of 8 10 11 8 10 15]
       add_shifted_or_multiplied_operand [OF wf d(3) c a(3), of 8 10 11 8 10 15]
  show ?thesis
    using wf by (simp add: d drop_back_def)
qed

subsection \<open>Constant-pair folding\<close>

lemma drop_last_folded:
  assumes root: "getDefiningOp m root = Some (Variadic c ty inputs)"
    and len: "2 \<le> length inputs"
    and k: "m_RConstant m (inputs ! (length inputs - 2)) = Some k"
  shows "lastTwoFoldedTo (Inr (Some (replaceOpWithNewOp m root (Variadic c ty (drop_back 1 inputs)))))
           root c ty inputs k"
proof -
  let ?x = "inputs ! (length inputs - 2)"
  from root k have ne: "?x \<noteq> root"
    by (auto simp: m_RConstant_def)
  have bl: "butlast (drop_back (Suc 0) inputs) = drop_back 2 inputs"
    by (simp add: drop_back_def butlast_take numeral_2_eq_2)
  have ne': "drop_back (Suc 0) inputs \<noteq> []"
    using len by (cases inputs) (auto simp: drop_back_def)
  have la: "last (drop_back (Suc 0) inputs) = ?x"
    using len ne' by (simp add: drop_back_def last_conv_nth numeral_2_eq_2)
  show ?thesis
    using ne k by (simp add: lastTwoFoldedTo_def getDefiningOp_replace bl ne' la m_RConstant_def)
qed

lemma new_constant_folded:
  assumes wf: "valuesBelowNext m"
    and root: "getDefiningOp m root = Some (Variadic c ty inputs)"
  shows "lastTwoFoldedTo (Inr (Some (replaceLastTwoByConstant m c root ty inputs k)))
           root c ty inputs k"
proof -
  from defined_below [OF wf root] have r: "root < nextValue m" by simp
  have d1: "getDefiningOp (snd (create m root (ConstantOp k))) =
      (getDefiningOp m)(nextValue m \<mapsto> ConstantOp k)"
    by (rule getDefiningOp_create [OF wf])
  show ?thesis
    using r
    by (simp add: lastTwoFoldedTo_def replaceLastTwoByConstant_def split_beta
          getDefiningOp_replace d1 m_RConstant_def)
qed

lemma and_all_ones: "a < 2 ^ w \<Longrightarrow> (2 ^ w - 1) AND a = a" for a w :: nat
  by (metis and.commute mask_eq_exp_minus_1 take_bit_eq_mask take_bit_nat_eq_self)

lemma last_nth: "2 \<le> length inputs \<Longrightarrow> last inputs = inputs ! (length inputs - 1)"
  by (cases inputs) (auto simp: last_conv_nth)

text \<open>
  C1 (amended). Let the last two operands of a variadic node be constants \<open>a\<close> and
  \<open>b\<close> of one width \<open>w\<close>. One run of the node's pattern leaves the node with the
  operands before the pair followed by a single constant of value \<open>a OP b\<close> (bitwise for
  \<open>AndOp\<close>, \<open>OrOp\<close>, \<open>XorOp\<close>; modulo \<open>2 ^ w\<close> for \<open>AddOp\<close>, \<open>MulOp\<close>),
  except in two cases the pattern treats differently: a \<open>XorOp\<close> whose last two
  operands are one and the same non-zero constant, and a two-operand \<open>MulOp\<close> whose last
  operand is a power of two.
\<close>

theorem constant_pair_folded:
  assumes wf: "valuesBelowNext m"
    and root: "getDefiningOp m root = Some (Variadic c ty inputs)"
    and len: "2 \<le> length inputs"
    and c1: "m_RConstant m (inputs ! (length inputs - 2)) = Some (APInt w a)"
    and c2: "m_RConstant m (inputs ! (length inputs - 1)) = Some (APInt w b)"
    and a: "a < 2 ^ w" and b: "b < 2 ^ w"
    and xor: "c = XorOp \<longrightarrow>
                inputs ! (length inputs - 1) \<noteq> inputs ! (length inputs - 2) \<or> b = 0"
    and mul: "c = MulOp \<longrightarrow> \<not> (length inputs = 2 \<and> isPowerOf2 (APInt w b))"
  shows "lastTwoFoldedTo (canonicalize m root) root c ty inputs (APInt w (foldedValue c w a b))"
proof -
  note drop = drop_last_folded [OF root len c1]
  note new = new_constant_folded [OF wf root]
  have pair: "matchConstantPair m inputs = Some (APInt w b, APInt w a)"
    using c1 c2 by (simp add: matchConstantPair_def)
  have lc: "lastIsConstant m inputs P = P (APInt w b)" for P
    using c2 by (simp add: lastIsConstant_def last_nth [OF len])
  have same: "inputs ! (length inputs - 1) = inputs ! (length inputs - 2) \<Longrightarrow> a = b"
    using c1 c2 by simp
  let ?same = "inputs ! (length inputs - 1) = inputs ! (length inputs - 2)"
  let ?drop = "Inr (Some (replaceOpWithNewOp m root (Variadic c ty (drop_back 1 inputs))))"
  show ?thesis
  proof (cases c)
    case AndOp
    have r: "AndOp_matchAndRewrite m root ty inputs =
        (if b = 2 ^ w - 1 \<or> ?same then ?drop
         else Inr (Some (replaceLastTwoByConstant m c root ty inputs (APInt w (b AND a)))))"
      using len by (simp add: AndOp_matchAndRewrite_def lc pair APInt_and_def isAllOnesValue_def AndOp)
    have v: "b = 2 ^ w - 1 \<or> ?same \<Longrightarrow> a AND b = a"
      using same a and_all_ones [of a w] by (auto simp: and.commute)
    have "lastTwoFoldedTo (AndOp_matchAndRewrite m root ty inputs) root c ty inputs
            (APInt w (a AND b))"
    proof (cases "b = 2 ^ w - 1 \<or> ?same")
      case True
      with r v drop show ?thesis by simp
    next
      case False
      with r new [of "APInt w (b AND a)"] show ?thesis by (simp add: and.commute)
    qed
    then show ?thesis
      by (simp add: canonicalize_def root AndOp foldedValue_def)
  next
    case OrOp
    have r: "OrOp_matchAndRewrite m root ty inputs =
        (if b = 0 \<or> ?same then ?drop
         else Inr (Some (replaceLastTwoByConstant m c root ty inputs (APInt w (b OR a)))))"
      using len by (simp add: OrOp_matchAndRewrite_def lc pair APInt_or_def isNullValue_def OrOp)
    have v: "b = 0 \<or> ?same \<Longrightarrow> a OR b = a"
      using same by auto
    have "lastTwoFoldedTo (OrOp_matchAndRewrite m root ty inputs) root c ty inputs
            (APInt w (a OR b))"
    proof (cases "b = 0 \<or> ?same")
      case True
      with r v drop show ?thesis by simp
    next
      case False
      with r new [of "APInt w (b OR a)"] show ?thesis by (simp add: or.commute)
    qed
    then show ?thesis
      by (simp add: canonicalize_def root OrOp foldedValue_def)
  next
    case XorOp
    with xor have x: "\<not> ?same \<or> b = 0" by simp
    have r: "XorOp_matchAndRewrite m root ty inputs =
        (if b = 0 then ?drop
         else Inr (Some (replaceLastTwoByConstant m c root ty inputs (APInt w (b XOR a)))))"
      using len x
      by (auto simp: XorOp_matchAndRewrite_def lc pair APInt_xor_def isNullValue_def XorOp)
    have "lastTwoFoldedTo (XorOp_matchAndRewrite m root ty inputs) root c ty inputs
            (APInt w (a XOR b))"
    proof (cases "b = 0")
      case True
      with r drop show ?thesis by simp
    next
      case False
      with r new [of "APInt w (b XOR a)"] show ?thesis by (simp add: xor.commute)
    qed
    then show ?thesis
      by (simp add: canonicalize_def root XorOp foldedValue_def)
  next
    case AddOp
    have r: "AddOp_matchAndRewrite m root ty inputs =
        (if b = 0 then ?drop
         else Inr (Some (replaceLastTwoByConstant m c root ty inputs
                           (APInt w ((b + a) mod 2 ^ w)))))"
      using len by (simp add: AddOp_matchAndRewrite_def lc pair APInt_add_def isNullValue_def AddOp)
    have "lastTwoFoldedTo (AddOp_matchAndRewrite m root ty inputs) root c ty inputs
            (APInt w ((a + b) mod 2 ^ w))"
    proof (cases "b = 0")
      case True
      with r drop a show ?thesis by simp
    next
      case False
      with r new [of "APInt w ((b + a) mod 2 ^ w)"] show ?thesis by (simp add: add.commute)
    qed
    then show ?thesis
      by (simp add: canonicalize_def root AddOp foldedValue_def)
  next
    case MulOp
    with mul have p: "\<not> (length inputs = 2 \<and> isPowerOf2 (APInt w b))" by simp
    have r: "MulOp_matchAndRewrite m root ty inputs =
        (if b = 1 then ?drop
         else Inr (Some (replaceLastTwoByConstant m c root ty inputs
                           (APInt w ((b * a) mod 2 ^ w)))))"
      using len p
      by (auto simp: MulOp_matchAndRewrite_def lc pair APInt_mul_def APInt_eq_uint_def MulOp)
    have "lastTwoFoldedTo (MulOp_matchAndRewrite m root ty inputs) root c ty inputs
            (APInt w ((a * b) mod 2 ^ w))"
    proof (cases "b = 1")
      case True
      with r drop a show ?thesis by simp
    next
      case False
      with r new [of "APInt w ((b * a) mod 2 ^ w)"] show ?thesis by (simp add: mult.commute)
    qed
    then show ?thesis
      by (simp add: canonicalize_def root MulOp foldedValue_def)
  qed
qed

lemma isPowerOf2_4: "isPowerOf2 (APInt 8 4)"
  using countPopulation_pow2 [of 2] by (simp add: isPowerOf2_def)

lemma exactLogBase2_4: "exactLogBase2 (APInt 8 4) = 2"
  using exactLogBase2_pow2 [of 8 2] by simp

lemma ex_pair_defs:
  "getDefiningOp ex_pair 12 = Some (Variadic MulOp 8 [10, 11])"
  "getDefiningOp ex_pair 14 = Some (Variadic XorOp 8 [13, 10, 10])"
  "getDefiningOp ex_pair 15 = Some (Variadic AddOp 8 [13, 10, 11])"
  "m_RConstant ex_pair 10 = Some (APInt 8 3)"
  "m_RConstant ex_pair 11 = Some (APInt 8 4)"
  "getType ex_pair 10 = 8"
  by (simp_all add: getDefiningOp_def m_RConstant_def getType_def ex_pair_def)

lemma ex_pair_mul:
  "canonicalize ex_pair 12 =
     Inr (Some \<lparr>body = [(10, ConstantOp (APInt 8 3)), (11, ConstantOp (APInt 8 4)),
       (16, ConstantOp (APInt 8 2)), (17, ShlOp 8 10 16), (12, Variadic MulOp 8 [17]),
       (13, OtherOp 8 []), (14, Variadic XorOp 8 [13, 10, 10]),
       (15, Variadic AddOp 8 [13, 10, 11])], nextValue = 18\<rparr>)"
  by (simp add: canonicalize_def MulOp_matchAndRewrite_def lastIsConstant_def m_RConstant_def
        isPowerOf2_4 exactLogBase2_4 ConstantOp_ofInt_def APInt_ofInt_def build_ShlOp_def
        getType_def getDefiningOp_def create_def replaceOpWithNewOp_def ex_pair_def)

lemma ex_pair_xor:
  "canonicalize ex_pair 14 =
     Inr (Some \<lparr>body = [(10, ConstantOp (APInt 8 3)), (11, ConstantOp (APInt 8 4)),
       (12, Variadic MulOp 8 [10, 11]), (13, OtherOp 8 []), (14, Variadic XorOp 8 [13]),
       (15, Variadic AddOp 8 [13, 10, 11])], nextValue = 16\<rparr>)"
  by (simp add: canonicalize_def XorOp_matchAndRewrite_def lastIsConstant_def m_RConstant_def
        getDefiningOp_def isNullValue_def replaceOpWithNewOp_def drop_back_def ex_pair_def)

text \<open>
  C1 as stated fails: \<open>mul(3, 4)\<close> on \<open>i8\<close> becomes \<open>mul(shl(3, 2))\<close>, with no
  constant 12, and \<open>xor(x, c, c)\<close> with both \<open>c\<close> the same constant 3 becomes
  \<open>xor(x)\<close>, with no constant 0.
\<close>

theorem constant_pair_folded_counterexample:
  "m_RConstant ex_pair 10 = Some (APInt 8 3) \<and> m_RConstant ex_pair 11 = Some (APInt 8 4) \<and>
   getDefiningOp ex_pair 12 = Some (Variadic MulOp 8 [10, 11]) \<and>
   getDefiningOp ex_pair 14 = Some (Variadic XorOp 8 [13, 10, 10]) \<and>
   canonicalize ex_pair 12 =
     Inr (Some \<lparr>body = [(10, ConstantOp (APInt 8 3)), (11, ConstantOp (APInt 8 4)),
       (16, ConstantOp (APInt 8 2)), (17, ShlOp 8 10 16), (12, Variadic MulOp 8 [17]),
       (13, OtherOp 8 []), (14, Variadic XorOp 8 [13, 10, 10]),
       (15, Variadic AddOp 8 [13, 10, 11])], nextValue = 18\<rparr>) \<and>
   \<not> lastTwoFoldedTo (canonicalize ex_pair 12) 12 MulOp 8 [10, 11]
        (APInt 8 (foldedValue MulOp 8 3 4)) \<and>
   canonicalize ex_pair 14 =
     Inr (Some \<lparr>body = [(10, ConstantOp (APInt 8 3)), (11, ConstantOp (APInt 8 4)),
       (12, Variadic MulOp 8 [10, 11]), (13, OtherOp 8 []), (14, Variadic XorOp 8 [13]),
       (15, Variadic AddOp 8 [13, 10, 11])], nextValue = 16\<rparr>) \<and>
   \<not> lastTwoFoldedTo (canonicalize ex_pair 14) 14 XorOp 8 [13, 10, 10]
        (APInt 8 (foldedValue XorOp 8 3 3))"
  unfolding ex_pair_mul ex_pair_xor
  by (simp add: lastTwoFoldedTo_def getDefiningOp_def m_RConstant_def drop_back_def ex_pair_def)

theorem constant_pair_folded_witness:
  "valuesBelowNext ex_pair \<and> getDefiningOp ex_pair 15 = Some (Variadic AddOp 8 [13, 10, 11]) \<and>
   m_RConstant ex_pair 10 = Some (APInt 8 3) \<and> m_RConstant ex_pair 11 = Some (APInt 8 4) \<and>
   lastTwoFoldedTo (canonicalize ex_pair 15) 15 AddOp 8 [13, 10, 11] (APInt 8 7)"
proof -
  have wf: "valuesBelowNext ex_pair"
    by (simp add: valuesBelowNext_def ex_pair_def)
  have "lastTwoFoldedTo (canonicalize ex_pair 15) 15 AddOp 8 [13, 10, 11]
          (APInt 8 (foldedValue AddOp 8 3 4))"
    by (rule constant_pair_folded [OF wf ex_pair_defs(3)]) (simp_all add: ex_pair_defs)
  then show ?thesis
    using wf by (simp add: ex_pair_defs foldedValue_def)
qed

subsection \<open>The order of the rules\<close>

lemma identityConstant_simps:
  "identityConstant AndOp = isAllOnesValue" "identityConstant OrOp = isNullValue"
  "identityConstant XorOp = isNullValue" "identityConstant AddOp = isNullValue"
  "identityConstant MulOp = (\<lambda>v. APInt_eq_uint v 1)"
  by (rule ext, simp add: identityConstant_def)+

lemma patterns_below_two:
  assumes len: "length inputs < 2"
  shows "AndOp_matchAndRewrite m root ty inputs = Inl AssertionFailure"
    and "OrOp_matchAndRewrite m root ty inputs = Inl AssertionFailure"
    and "XorOp_matchAndRewrite m root ty inputs = Inl AssertionFailure"
    and "AddOp_matchAndRewrite m root ty inputs = Inl AssertionFailure"
    and "MulOp_matchAndRewrite m root ty inputs = Inl AssertionFailure"
  using len
  by (simp_all add: AndOp_matchAndRewrite_def OrOp_matchAndRewrite_def XorOp_matchAndRewrite_def
        AddOp_matchAndRewrite_def MulOp_matchAndRewrite_def)

lemma patterns_as_rule_lists:
  assumes len: "2 \<le> length inputs"
  shows "AndOp_matchAndRewrite m root ty inputs = firstMatch (commonRules AndOp) m root ty inputs"
    and "OrOp_matchAndRewrite m root ty inputs = firstMatch (commonRules OrOp) m root ty inputs"
    and "XorOp_matchAndRewrite m root ty inputs =
       (if length inputs = 2 \<and> inputs ! 0 = inputs ! 1 \<and> \<not> lastIsConstant m inputs isNullValue
        then Inl AssertionFailure
        else firstMatch (commonRules XorOp) m root ty inputs)"
    and "AddOp_matchAndRewrite m root ty inputs =
       firstMatch [identityRule AddOp, constantPairRule AddOp, idempotenceRule AddOp,
                   addShlRule, addMulRule, flattenRule AddOp] m root ty inputs"
    and "MulOp_matchAndRewrite m root ty inputs =
       firstMatch [mulPowerOfTwoRule, identityRule MulOp, constantPairRule MulOp,
                   flattenRule MulOp] m root ty inputs"
proof -
  show "AndOp_matchAndRewrite m root ty inputs = firstMatch (commonRules AndOp) m root ty inputs"
    using len
    by (simp add: AndOp_matchAndRewrite_def commonRules_def identityRule_def identityConstant_simps
          idempotenceRule_def constantPairRule_def combineConstants_def flattenRule_def
          split: option.splits sum.splits prod.splits)
  show "OrOp_matchAndRewrite m root ty inputs = firstMatch (commonRules OrOp) m root ty inputs"
    using len
    by (simp add: OrOp_matchAndRewrite_def commonRules_def identityRule_def identityConstant_simps
          idempotenceRule_def constantPairRule_def combineConstants_def flattenRule_def
          split: option.splits sum.splits prod.splits)
  show "XorOp_matchAndRewrite m root ty inputs =
       (if length inputs = 2 \<and> inputs ! 0 = inputs ! 1 \<and> \<not> lastIsConstant m inputs isNullValue
        then Inl AssertionFailure
        else firstMatch (commonRules XorOp) m root ty inputs)"
  proof (cases "length inputs = 2")
    case True
    then have idx: "inputs ! (length inputs - 1) = inputs ! 1"
      "inputs ! (length inputs - 2) = inputs ! 0"
      by simp_all
    show ?thesis
      unfolding XorOp_matchAndRewrite_def idx
      using True
      by (simp add: commonRules_def identityRule_def identityConstant_simps
            idempotenceRule_def constantPairRule_def combineConstants_def flattenRule_def
            split: option.splits sum.splits prod.splits)
  next
    case False
    with len have "3 \<le> length inputs" by simp
    then show ?thesis
      by (simp add: XorOp_matchAndRewrite_def commonRules_def identityRule_def
            identityConstant_simps idempotenceRule_def constantPairRule_def combineConstants_def
            flattenRule_def split: option.splits sum.splits prod.splits)
  qed
  show "AddOp_matchAndRewrite m root ty inputs =
       firstMatch [identityRule AddOp, constantPairRule AddOp, idempotenceRule AddOp,
                   addShlRule, addMulRule, flattenRule AddOp] m root ty inputs"
    using len
    by (simp add: AddOp_matchAndRewrite_def identityRule_def identityConstant_simps
          idempotenceRule_def constantPairRule_def combineConstants_def flattenRule_def
          addShlRule_def addMulRule_def Let_def split_beta
          split: option.splits sum.splits)
  show "MulOp_matchAndRewrite m root ty inputs =
       firstMatch [mulPowerOfTwoRule, identityRule MulOp, constantPairRule MulOp,
                   flattenRule MulOp] m root ty inputs"
    using len
    by (simp add: MulOp_matchAndRewrite_def identityRule_def identityConstant_simps
          mulPowerOfTwoRule_def constantPairRule_def combineConstants_def flattenRule_def
          Let_def split_beta
          split: option.splits sum.splits)
qed

lemma patterns_without_assertion:
  assumes len: "2 \<le> length inputs"
    and widths: "\<forall>v v2. matchConstantPair m inputs = Some (v, v2) \<longrightarrow> getBitWidth v = getBitWidth v2"
  shows "AndOp_matchAndRewrite m root ty inputs \<noteq> Inl AssertionFailure"
    and "OrOp_matchAndRewrite m root ty inputs \<noteq> Inl AssertionFailure"
    and "(XorOp_matchAndRewrite m root ty inputs = Inl AssertionFailure) =
       (length inputs = 2 \<and> inputs ! 0 = inputs ! 1 \<and> \<not> lastIsConstant m inputs isNullValue)"
    and "AddOp_matchAndRewrite m root ty inputs \<noteq> Inl AssertionFailure"
    and "MulOp_matchAndRewrite m root ty inputs \<noteq> Inl AssertionFailure"
proof -
  show "AndOp_matchAndRewrite m root ty inputs \<noteq> Inl AssertionFailure"
    using len widths
    by (auto simp: AndOp_matchAndRewrite_def APInt_and_def split: option.splits)
  show "OrOp_matchAndRewrite m root ty inputs \<noteq> Inl AssertionFailure"
    using len widths
    by (auto simp: OrOp_matchAndRewrite_def APInt_or_def split: option.splits)
  show "(XorOp_matchAndRewrite m root ty inputs = Inl AssertionFailure) =
       (length inputs = 2 \<and> inputs ! 0 = inputs ! 1 \<and> \<not> lastIsConstant m inputs isNullValue)"
  proof (cases "length inputs = 2")
    case True
    then have idx: "inputs ! (length inputs - 1) = inputs ! 1"
      "inputs ! (length inputs - 2) = inputs ! 0"
      by simp_all
    from widths have "\<And>v v2. matchConstantPair m inputs = Some (v, v2) \<Longrightarrow>
        APInt_xor v v2 \<noteq> Inl AssertionFailure"
      by (auto simp: APInt_xor_def)
    then show ?thesis
      unfolding XorOp_matchAndRewrite_def idx
      using True
      by (auto split: option.splits sum.splits)
  next
    case False
    with len have three: "3 \<le> length inputs" by simp
    from widths have "\<And>v v2. matchConstantPair m inputs = Some (v, v2) \<Longrightarrow>
        APInt_xor v v2 \<noteq> Inl AssertionFailure"
      by (auto simp: APInt_xor_def)
    with three False show ?thesis
      by (auto simp: XorOp_matchAndRewrite_def split: option.splits sum.splits)
  qed
  show "AddOp_matchAndRewrite m root ty inputs \<noteq> Inl AssertionFailure"
    using len widths
    by (auto simp: AddOp_matchAndRewrite_def APInt_add_def APInt_shl_def APInt_ofInt_def Let_def
          split_beta split: option.splits)
  show "MulOp_matchAndRewrite m root ty inputs \<noteq> Inl AssertionFailure"
    using len widths
    by (auto simp: MulOp_matchAndRewrite_def APInt_mul_def Let_def split_beta
          split: option.splits)
qed

text \<open>
  C2 (amended). On a node of fewer than two operands every pattern stops at its assertion
  \<open>size > 1\<close>. On a node of two or more operands the patterns of \<open>AndOp\<close> and \<open>OrOp\<close> try
  identity elimination, idempotence, constant-pair folding and flattening in this order.
  The pattern of \<open>XorOp\<close> does the same with one exception: on a node of two operands that
  are the same value, other than the constant 0, it enters its idempotence branch and stops
  at the assertion \<open>size > 2\<close>, where the idempotence rule of the spec does not apply. The
  pattern of \<open>AddOp\<close> tries identity elimination, constant-pair folding, the \<open>x + x\<close> rule,
  its two own rules and flattening; the pattern of \<open>MulOp\<close> tries its power-of-two rule,
  identity elimination, constant-pair folding and flattening, and has no idempotence rule.
  In each list the first matching rule decides the outcome, and when no rule matches the
  call reports failure and returns no new IR. For an \<open>AddOp\<close> whose last two operands are
  the same non-zero constant it is constant-pair folding that fires. Unless the last two
  operands are constants of different widths, no pattern stops at an assertion, the
  exception of \<open>XorOp\<close> apart: the call returns one rewrite or reports failure.
\<close>

theorem rule_order:
  "(length inputs < 2 \<longrightarrow>
     AndOp_matchAndRewrite m root ty inputs = Inl AssertionFailure \<and>
     OrOp_matchAndRewrite m root ty inputs = Inl AssertionFailure \<and>
     XorOp_matchAndRewrite m root ty inputs = Inl AssertionFailure \<and>
     AddOp_matchAndRewrite m root ty inputs = Inl AssertionFailure \<and>
     MulOp_matchAndRewrite m root ty inputs = Inl AssertionFailure) \<and>
   (2 \<le> length inputs \<longrightarrow>
     AndOp_matchAndRewrite m root ty inputs = firstMatch (commonRules AndOp) m root ty inputs \<and>
     OrOp_matchAndRewrite m root ty inputs = firstMatch (commonRules OrOp) m root ty inputs \<and>
     XorOp_matchAndRewrite m root ty inputs =
       (if length inputs = 2 \<and> inputs ! 0 = inputs ! 1 \<and> \<not> lastIsConstant m inputs isNullValue
        then Inl AssertionFailure
        else firstMatch (commonRules XorOp) m root ty inputs) \<and>
     AddOp_matchAndRewrite m root ty inputs =
       firstMatch [identityRule AddOp, constantPairRule AddOp, idempotenceRule AddOp,
                   addShlRule, addMulRule, flattenRule AddOp] m root ty inputs \<and>
     MulOp_matchAndRewrite m root ty inputs =
       firstMatch [mulPowerOfTwoRule, identityRule MulOp, constantPairRule MulOp,
                   flattenRule MulOp] m root ty inputs \<and>
     (\<forall>v. inputs ! (length inputs - 1) = inputs ! (length inputs - 2) \<and>
          m_RConstant m (last inputs) = Some v \<and> \<not> isNullValue v \<longrightarrow>
          AddOp_matchAndRewrite m root ty inputs =
            Inr (Some (replaceLastTwoByConstant m AddOp root ty inputs
                   (APInt (getBitWidth v) ((getZExtValue v + getZExtValue v) mod 2 ^ getBitWidth v))))) \<and>
     ((\<forall>v v2. matchConstantPair m inputs = Some (v, v2) \<longrightarrow> getBitWidth v = getBitWidth v2) \<longrightarrow>
        AndOp_matchAndRewrite m root ty inputs \<noteq> Inl AssertionFailure \<and>
        OrOp_matchAndRewrite m root ty inputs \<noteq> Inl AssertionFailure \<and>
        (XorOp_matchAndRewrite m root ty inputs = Inl AssertionFailure) =
          (length inputs = 2 \<and> inputs ! 0 = inputs ! 1 \<and> \<not> lastIsConstant m inputs isNullValue) \<and>
        AddOp_matchAndRewrite m root ty inputs \<noteq> Inl AssertionFailure \<and>
        MulOp_matchAndRewrite m root ty inputs \<noteq> Inl AssertionFailure))"
proof (rule conjI)
  show "length inputs < 2 \<longrightarrow>
     AndOp_matchAndRewrite m root ty inputs = Inl AssertionFailure \<and>
     OrOp_matchAndRewrite m root ty inputs = Inl AssertionFailure \<and>
     XorOp_matchAndRewrite m root ty inputs = Inl AssertionFailure \<and>
     AddOp_matchAndRewrite m root ty inputs = Inl AssertionFailure \<and>
     MulOp_matchAndRewrite m root ty inputs = Inl AssertionFailure"
    using patterns_below_two [of inputs m root ty] by blast
next
  show "2 \<le> length inputs \<longrightarrow>
     AndOp_matchAndRewrite m root ty inputs = firstMatch (commonRules AndOp) m root ty inputs \<and>
     OrOp_matchAndRewrite m root ty inputs = firstMatch (commonRules OrOp) m root ty inputs \<and>
     XorOp_matchAndRewrite m root ty inputs =
       (if length inputs = 2 \<and> inputs ! 0 = inputs ! 1 \<and> \<not> lastIsConstant m inputs isNullValue
        then Inl AssertionFailure
        else firstMatch (commonRules XorOp) m root ty inputs) \<and>
     AddOp_matchAndRewrite m root ty inputs =
       firstMatch [identityRule AddOp, constantPairRule AddOp, idempotenceRule AddOp,
                   addShlRule, addMulRule, flattenRule AddOp] m root ty inputs \<and>
     MulOp_matchAndRewrite m root ty inputs =
       firstMatch [mulPowerOfTwoRule, identityRule MulOp, constantPairRule MulOp,
                   flattenRule MulOp] m root ty inputs \<and>
     (\<forall>v. inputs ! (length inputs - 1) = inputs ! (length inputs - 2) \<and>
          m_RConstant m (last inputs) = Some v \<and> \<not> isNullValue v \<longrightarrow>
          AddOp_matchAndRewrite m root ty inputs =
            Inr (Some (replaceLastTwoByConstant m AddOp root ty inputs
                   (APInt (getBitWidth v) ((getZExtValue v + getZExtValue v) mod 2 ^ getBitWidth v))))) \<and>
     ((\<forall>v v2. matchConstantPair m inputs = Some (v, v2) \<longrightarrow> getBitWidth v = getBitWidth v2) \<longrightarrow>
        AndOp_matchAndRewrite m root ty inputs \<noteq> Inl AssertionFailure \<and>
        OrOp_matchAndRewrite m root ty inputs \<noteq> Inl AssertionFailure \<and>
        (XorOp_matchAndRewrite m root ty inputs = Inl AssertionFailure) =
          (length inputs = 2 \<and> inputs ! 0 = inputs ! 1 \<and> \<not> lastIsConstant m inputs isNullValue) \<and>
        AddOp_matchAndRewrite m root ty inputs \<noteq> Inl AssertionFailure \<and>
        MulOp_matchAndRewrite m root ty inputs \<noteq> Inl AssertionFailure)"
  proof (rule impI)
    assume len: "2 \<le> length inputs"
    have same: "\<forall>v. inputs ! (length inputs - 1) = inputs ! (length inputs - 2) \<and>
          m_RConstant m (last inputs) = Some v \<and> \<not> isNullValue v \<longrightarrow>
          AddOp_matchAndRewrite m root ty inputs =
            Inr (Some (replaceLastTwoByConstant m AddOp root ty inputs
                   (APInt (getBitWidth v) ((getZExtValue v + getZExtValue v) mod 2 ^ getBitWidth v))))"
    proof (intro allI impI)
      fix v
      assume h: "inputs ! (length inputs - 1) = inputs ! (length inputs - 2) \<and>
          m_RConstant m (last inputs) = Some v \<and> \<not> isNullValue v"
      from len have last: "last inputs = inputs ! (length inputs - 1)"
        by (rule last_nth)
      from h last have a: "m_RConstant m (inputs ! (length inputs - 1)) = Some v"
        and b: "m_RConstant m (inputs ! (length inputs - 2)) = Some v"
        by metis+
      have "matchConstantPair m inputs = Some (v, v)"
        unfolding matchConstantPair_def a b by simp
      with len h show "AddOp_matchAndRewrite m root ty inputs =
            Inr (Some (replaceLastTwoByConstant m AddOp root ty inputs
                   (APInt (getBitWidth v) ((getZExtValue v + getZExtValue v) mod 2 ^ getBitWidth v))))"
        by (simp add: AddOp_matchAndRewrite_def lastIsConstant_def APInt_add_def)
    qed
    have noassert: "(\<forall>v v2. matchConstantPair m inputs = Some (v, v2) \<longrightarrow> getBitWidth v = getBitWidth v2) \<longrightarrow>
        AndOp_matchAndRewrite m root ty inputs \<noteq> Inl AssertionFailure \<and>
        OrOp_matchAndRewrite m root ty inputs \<noteq> Inl AssertionFailure \<and>
        (XorOp_matchAndRewrite m root ty inputs = Inl AssertionFailure) =
          (length inputs = 2 \<and> inputs ! 0 = inputs ! 1 \<and> \<not> lastIsConstant m inputs isNullValue) \<and>
        AddOp_matchAndRewrite m root ty inputs \<noteq> Inl AssertionFailure \<and>
        MulOp_matchAndRewrite m root ty inputs \<noteq> Inl AssertionFailure"
      using patterns_without_assertion [OF len, of m root ty] by blast
    from patterns_as_rule_lists [OF len, of m root ty] same noassert
    show "AndOp_matchAndRewrite m root ty inputs = firstMatch (commonRules AndOp) m root ty inputs \<and>
     OrOp_matchAndRewrite m root ty inputs = firstMatch (commonRules OrOp) m root ty inputs \<and>
     XorOp_matchAndRewrite m root ty inputs =
       (if length inputs = 2 \<and> inputs ! 0 = inputs ! 1 \<and> \<not> lastIsConstant m inputs isNullValue
        then Inl AssertionFailure
        else firstMatch (commonRules XorOp) m root ty inputs) \<and>
     AddOp_matchAndRewrite m root ty inputs =
       firstMatch [identityRule AddOp, constantPairRule AddOp, idempotenceRule AddOp,
                   addShlRule, addMulRule, flattenRule AddOp] m root ty inputs \<and>
     MulOp_matchAndRewrite m root ty inputs =
       firstMatch [mulPowerOfTwoRule, identityRule MulOp, constantPairRule MulOp,
                   flattenRule MulOp] m root ty inputs \<and>
     (\<forall>v. inputs ! (length inputs - 1) = inputs ! (length inputs - 2) \<and>
          m_RConstant m (last inputs) = Some v \<and> \<not> isNullValue v \<longrightarrow>
          AddOp_matchAndRewrite m root ty inputs =
            Inr (Some (replaceLastTwoByConstant m AddOp root ty inputs
                   (APInt (getBitWidth v) ((getZExtValue v + getZExtValue v) mod 2 ^ getBitWidth v))))) \<and>
     ((\<forall>v v2. matchConstantPair m inputs = Some (v, v2) \<longrightarrow> getBitWidth v = getBitWidth v2) \<longrightarrow>
        AndOp_matchAndRewrite m root ty inputs \<noteq> Inl AssertionFailure \<and>
        OrOp_matchAndRewrite m root ty inputs \<noteq> Inl AssertionFailure \<and>
        (XorOp_matchAndRewrite m root ty inputs = Inl AssertionFailure) =
          (length inputs = 2 \<and> inputs ! 0 = inputs ! 1 \<and> \<not> lastIsConstant m inputs isNullValue) \<and>
        AddOp_matchAndRewrite m root ty inputs \<noteq> Inl AssertionFailure \<and>
        MulOp_matchAndRewrite m root ty inputs \<noteq> Inl AssertionFailure)"
      by (intro conjI)
  qed
qed

text \<open>
  C2 as stated fails for \<open>AddOp\<close>: on \<open>add(c, c)\<close> with both operands the same
  constant 3 of \<open>i8\<close> the pattern folds the pair to the constant 6, where the order of the
  claim would give \<open>shl(c, 1)\<close>.
\<close>

theorem rule_order_counterexample:
  "m_RConstant ex_order 10 = Some (APInt 8 3) \<and>
   AddOp_matchAndRewrite ex_order 11 8 [10, 10] =
     Inr (Some \<lparr>body = [(10, ConstantOp (APInt 8 3)), (14, ConstantOp (APInt 8 6)),
       (11, Variadic AddOp 8 [14]), (12, OtherOp 8 []), (13, Variadic AndOp 8 [12, 12])],
       nextValue = 15\<rparr>) \<and>
   firstMatch (commonRules AddOp) ex_order 11 8 [10, 10] =
     Inr (Some \<lparr>body = [(10, ConstantOp (APInt 8 3)), (14, ConstantOp (APInt 8 1)),
       (15, ShlOp 8 10 14), (11, Variadic AddOp 8 [15]), (12, OtherOp 8 []),
       (13, Variadic AndOp 8 [12, 12])], nextValue = 16\<rparr>) \<and>
   AddOp_matchAndRewrite ex_order 11 8 [10, 10] \<noteq>
     firstMatch (commonRules AddOp) ex_order 11 8 [10, 10]"
  by (simp add: AddOp_matchAndRewrite_def commonRules_def identityRule_def
        identityConstant_simps idempotenceRule_def lastIsConstant_def m_RConstant_def
        getDefiningOp_def isNullValue_def matchConstantPair_def APInt_add_def
        replaceLastTwoByConstant_def create_def replaceOpWithNewOp_def drop_back_def
        ConstantOp_ofInt_def APInt_ofInt_def build_ShlOp_def getType_def ex_order_def)

theorem rule_order_witness:
  "length [10::nat] < 2 \<and>
   AndOp_matchAndRewrite ex_same 14 8 [10] = Inl AssertionFailure \<and>
   (2::nat) \<le> length [12::nat, 12] \<and>
   AndOp_matchAndRewrite ex_order 13 8 [12, 12] =
     firstMatch (commonRules AndOp) ex_order 13 8 [12, 12] \<and>
   MulOp_matchAndRewrite ex_order 13 8 [12, 12] =
     firstMatch [mulPowerOfTwoRule, identityRule MulOp, constantPairRule MulOp,
                 flattenRule MulOp] ex_order 13 8 [12, 12] \<and>
   \<not> lastIsConstant ex_same [10, 10] isNullValue \<and>
   XorOp_matchAndRewrite ex_same 11 8 [10, 10] = Inl AssertionFailure \<and>
   firstMatch (commonRules XorOp) ex_same 11 8 [10, 10] = Inr None \<and>
   m_RConstant ex_order (last [10, 10]) = Some (APInt 8 3) \<and> \<not> isNullValue (APInt 8 3) \<and>
   AddOp_matchAndRewrite ex_order 11 8 [10, 10] =
     Inr (Some (replaceLastTwoByConstant ex_order AddOp 11 8 [10, 10] (APInt 8 6))) \<and>
   matchConstantPair ex_pair [13, 10, 11] = Some (APInt 8 4, APInt 8 3) \<and>
   AddOp_matchAndRewrite ex_pair 15 8 [13, 10, 11] \<noteq> Inl AssertionFailure"
proof -
  have c: "m_RConstant ex_order (last [10, 10]) = Some (APInt 8 3)" "\<not> isNullValue (APInt 8 3)"
    by (simp_all add: m_RConstant_def getDefiningOp_def ex_order_def isNullValue_def)
  have len1: "length [10::nat] < 2" by simp
  have len2: "(2::nat) \<le> length [10::nat, 10]" by simp
  have len3: "(2::nat) \<le> length [13::nat, 10, 11]" by simp
  note below = rule_order [of "[10]" ex_same 14 8, THEN conjunct1, rule_format, OF len1,
      THEN conjunct1]
  from rule_order [of "[12, 12]" ex_order 13 8]
  have a: "AndOp_matchAndRewrite ex_order 13 8 [12, 12] =
      firstMatch (commonRules AndOp) ex_order 13 8 [12, 12]"
    "MulOp_matchAndRewrite ex_order 13 8 [12, 12] =
     firstMatch [mulPowerOfTwoRule, identityRule MulOp, constantPairRule MulOp,
                 flattenRule MulOp] ex_order 13 8 [12, 12]"
    by simp_all
  have nc: "\<not> lastIsConstant ex_same [10, 10] isNullValue"
    by (simp add: lastIsConstant_def m_RConstant_def getDefiningOp_def ex_same_def)
  note xor = rule_order [of "[10, 10]" ex_same 11 8, THEN conjunct2, rule_format, OF len2,
      THEN conjunct2, THEN conjunct2, THEN conjunct1]
  have x: "XorOp_matchAndRewrite ex_same 11 8 [10, 10] = Inl AssertionFailure"
    unfolding xor using nc by simp
  have f: "firstMatch (commonRules XorOp) ex_same 11 8 [10, 10] = Inr None"
    by (simp add: commonRules_def identityRule_def identityConstant_simps idempotenceRule_def
          constantPairRule_def matchConstantPair_def flattenRule_def tryFlatteningOperands_def
          lastIsConstant_def m_RConstant_def getDefiningOp_def ex_same_def)
  note add = rule_order [of "[10, 10]" ex_order 11 8, THEN conjunct2, rule_format, OF len2,
      THEN conjunct2, THEN conjunct2, THEN conjunct2, THEN conjunct2, THEN conjunct2,
      THEN conjunct1, rule_format, of "APInt 8 3"]
  have "AddOp_matchAndRewrite ex_order 11 8 [10, 10] =
     Inr (Some (replaceLastTwoByConstant ex_order AddOp 11 8 [10, 10]
       (APInt (getBitWidth (APInt 8 3))
          ((getZExtValue (APInt 8 3) + getZExtValue (APInt 8 3)) mod
            2 ^ getBitWidth (APInt 8 3)))))"
    by (rule add) (use c in simp)
  then have s: "AddOp_matchAndRewrite ex_order 11 8 [10, 10] =
     Inr (Some (replaceLastTwoByConstant ex_order AddOp 11 8 [10, 10] (APInt 8 6)))"
    by simp
  have p: "matchConstantPair ex_pair [13, 10, 11] = Some (APInt 8 4, APInt 8 3)"
    by (simp add: matchConstantPair_def m_RConstant_def getDefiningOp_def ex_pair_def)
  note na = rule_order [of "[13, 10, 11]" ex_pair 15 8, THEN conjunct2, rule_format, OF len3,
      THEN conjunct2, THEN conjunct2, THEN conjunct2, THEN conjunct2, THEN conjunct2,
      THEN conjunct2, rule_format, THEN conjunct2, THEN conjunct2, THEN conjunct2,
      THEN conjunct1]
  have n: "AddOp_matchAndRewrite ex_pair 15 8 [13, 10, 11] \<noteq> Inl AssertionFailure"
    by (rule na) (simp add: p)
  from below a nc x f c s p n show ?thesis
    by (intro conjI) simp_all
qed

subsection \<open>The shapes a rewrite can take\<close>

lemma shapedI:
  "rewriteKind m c inputs news ins \<Longrightarrow> m' = rewriteResult m root c ty news ins \<Longrightarrow>
   shaped m root c ty inputs m'"
  by (auto simp: shaped_def)

lemma shaped_dropLast:
  "2 \<le> length inputs \<Longrightarrow>
   shaped m root c ty inputs (replaceOpWithNewOp m root (Variadic c ty (drop_back (Suc 0) inputs)))"
  using dropLast [of inputs m c] by (auto simp: shaped_def rewriteResult_def intro!: exI)

lemma shaped_dropLastTwo:
  "3 \<le> length inputs \<Longrightarrow>
   shaped m root c ty inputs (replaceOpWithNewOp m root (Variadic c ty (drop_back 2 inputs)))"
  using dropLastTwo [of inputs m c] by (auto simp: shaped_def rewriteResult_def intro!: exI)

lemma shaped_foldPair:
  "2 \<le> length inputs \<Longrightarrow>
   shaped m root c ty inputs (replaceLastTwoByConstant m c root ty inputs k)"
  using foldPair [of inputs m c k]
  by (auto simp: shaped_def rewriteResult_def replaceLastTwoByConstant_def split_beta intro!: exI)

lemma shaped_double:
  "2 \<le> length inputs \<Longrightarrow>
   shaped m root c ty inputs
     (replaceOpWithNewOp
        (snd (create (snd (create m root (ConstantOp k))) root
                (ShlOp t (last inputs) (nextValue m))))
        root (Variadic c ty (drop_back 2 inputs @ [Suc (nextValue m)])))"
  using double [of inputs m c k t]
  by (auto simp: shaped_def rewriteResult_def intro!: exI)

lemma shaped_shlToMul:
  "2 \<le> length inputs \<Longrightarrow> getDefiningOp m (last inputs) = Some (ShlOp sty x rhs) \<Longrightarrow>
   x = inputs ! (length inputs - 2) \<Longrightarrow>
   shaped m root AddOp ty inputs (replaceLastTwoByMul m root ty inputs x k)"
  using shlToMul [of inputs m sty x rhs AddOp k]
  by (auto simp: shaped_def rewriteResult_def replaceLastTwoByMul_def split_beta build_MulOp_def
           intro!: exI)

lemma shaped_mulToMul:
  "2 \<le> length inputs \<Longrightarrow> getDefiningOp m (last inputs) = Some (Variadic MulOp mty [x, f1]) \<Longrightarrow>
   x = inputs ! (length inputs - 2) \<Longrightarrow>
   shaped m root AddOp ty inputs (replaceLastTwoByMul m root ty inputs x k)"
  using mulToMul [of inputs m mty x f1 AddOp k]
  by (auto simp: shaped_def rewriteResult_def replaceLastTwoByMul_def split_beta build_MulOp_def
           intro!: exI)

lemma shaped_toShift:
  "shaped m root c ty [x, cst]
     (replaceOpWithNewOp
        (snd (create (snd (create m root (ConstantOp k))) root (ShlOp t x (nextValue m))))
        root (Variadic c ty [Suc (nextValue m)]))"
  using toShift [of "[x, cst]" x cst m c k t]
  by (auto simp: shaped_def rewriteResult_def intro!: exI)

lemma shaped_flatten:
  "getDefiningOp m x = Some (Variadic c ty' ys) \<Longrightarrow>
   shaped m root c ty (pre @ x # post) (replaceOpWithNewOp m root (Variadic c ty (pre @ ys @ post)))"
  using flatten [of "pre @ x # post" pre x post m c ty' ys]
  by (auto simp: shaped_def rewriteResult_def intro!: exI)

lemma identityRule_shape:
  "identityRule c m root ty inputs = Some (Inr m') \<Longrightarrow> 2 \<le> length inputs \<Longrightarrow>
   shaped m root c ty inputs m'"
  by (auto simp: identityRule_def shaped_dropLast split: if_splits)

lemma idempotenceRule_shape:
  "idempotenceRule c m root ty inputs = Some (Inr m') \<Longrightarrow> 2 \<le> length inputs \<Longrightarrow>
   shaped m root c ty inputs m'"
  by (cases c)
     (auto simp: idempotenceRule_def shaped_dropLast shaped_dropLastTwo shaped_double split_beta
        build_ShlOp_def ConstantOp_ofInt_def split: if_splits)

lemma constantPairRule_shape:
  "constantPairRule c m root ty inputs = Some (Inr m') \<Longrightarrow> 2 \<le> length inputs \<Longrightarrow>
   shaped m root c ty inputs m'"
  by (auto simp: constantPairRule_def shaped_foldPair split: option.splits sum.splits)

lemma matchAddShl_Some:
  "matchAddShl m inputs = Some (x, v) \<Longrightarrow>
   \<exists>sty rhs. getDefiningOp m (inputs ! (length inputs - 1)) = Some (ShlOp sty x rhs) \<and>
     x = inputs ! (length inputs - 2)"
  by (auto simp: matchAddShl_def split: option.splits Operation.splits if_splits)

lemma matchAddMul_Some:
  "matchAddMul m inputs = Some (x, v) \<Longrightarrow>
   \<exists>mty f1. getDefiningOp m (inputs ! (length inputs - 1)) = Some (Variadic MulOp mty [x, f1]) \<and>
     x = inputs ! (length inputs - 2)"
proof -
  assume h: "matchAddMul m inputs = Some (x, v)"
  then obtain mty mulInputs where d:
    "getDefiningOp m (inputs ! (length inputs - 1)) = Some (Variadic MulOp mty mulInputs)"
    "length mulInputs = 2" "mulInputs ! 0 = inputs ! (length inputs - 2)" "x = mulInputs ! 0"
    by (auto simp: matchAddMul_def split: option.splits Operation.splits OpClass.splits if_splits)
  then obtain f0 f1 where "mulInputs = [f0, f1]"
    by (cases mulInputs; cases "tl mulInputs") auto
  with d show ?thesis by auto
qed

lemma addShlRule_shape:
  assumes "addShlRule m root ty inputs = Some (Inr m')" and len: "2 \<le> length inputs"
  shows "shaped m root AddOp ty inputs m'"
proof -
  from assms(1) obtain x v k where ms: "matchAddShl m inputs = Some (x, v)"
    and m': "m' = replaceLastTwoByMul m root ty inputs x k"
    by (auto simp: addShlRule_def split: option.splits sum.splits)
  from matchAddShl_Some [OF ms] obtain sty rhs where
    "getDefiningOp m (last inputs) = Some (ShlOp sty x rhs)" "x = inputs ! (length inputs - 2)"
    by (auto simp: last_nth [OF len])
  from shaped_shlToMul [OF len this] m' show ?thesis by simp
qed

lemma addMulRule_shape:
  assumes "addMulRule m root ty inputs = Some (Inr m')" and len: "2 \<le> length inputs"
  shows "shaped m root AddOp ty inputs m'"
proof -
  from assms(1) obtain x v k where ms: "matchAddMul m inputs = Some (x, v)"
    and m': "m' = replaceLastTwoByMul m root ty inputs x k"
    by (auto simp: addMulRule_def split: option.splits sum.splits)
  from matchAddMul_Some [OF ms] obtain mty f1 where
    "getDefiningOp m (last inputs) = Some (Variadic MulOp mty [x, f1])"
    "x = inputs ! (length inputs - 2)"
    by (auto simp: last_nth [OF len])
  from shaped_mulToMul [OF len this] m' show ?thesis by simp
qed

lemma mulPowerOfTwoRule_shape:
  "mulPowerOfTwoRule m root ty inputs = Some (Inr m') \<Longrightarrow>
   shaped m root MulOp ty inputs m'"
proof -
  assume h: "mulPowerOfTwoRule m root ty inputs = Some (Inr m')"
  then have "length inputs = 2"
    by (auto simp: mulPowerOfTwoRule_def split: if_splits)
  then obtain x cst where i: "inputs = [x, cst]"
    by (cases inputs; cases "tl inputs") auto
  with h show ?thesis
    by (auto simp: mulPowerOfTwoRule_def split_beta build_ShlOp_def shaped_toShift
          ConstantOp_ofInt_def Let_def split: if_splits)
qed

lemma flattenedOperands_Some:
  "flattenedOperands m c acc rest = Some new \<Longrightarrow>
   \<exists>pre x post ty' ys. rest = pre @ x # post \<and> getDefiningOp m x = Some (Variadic c ty' ys) \<and>
     new = acc @ pre @ ys @ post"
proof (induction rest arbitrary: acc)
  case Nil
  then show ?case by simp
next
  case (Cons x rest)
  show ?case
  proof (cases "hasOneUse m x \<and> (\<exists>ty' ys. getDefiningOp m x = Some (Variadic c ty' ys))")
    case True
    then obtain ty' ys where d: "getDefiningOp m x = Some (Variadic c ty' ys)" by blast
    with True Cons.prems have "new = acc @ [] @ ys @ rest" by simp
    with d show ?thesis by blast
  next
    case False
    with Cons.prems have "flattenedOperands m c (acc @ [x]) rest = Some new"
      by (auto split: if_splits option.splits Operation.splits)
    from Cons.IH [OF this] obtain pre y post ty' ys where
      "rest = pre @ y # post" "getDefiningOp m y = Some (Variadic c ty' ys)"
      "new = (acc @ [x]) @ pre @ ys @ post"
      by blast
    then have "x # rest = (x # pre) @ y # post \<and> getDefiningOp m y = Some (Variadic c ty' ys) \<and>
        new = acc @ (x # pre) @ ys @ post"
      by simp
    then show ?thesis by blast
  qed
qed

lemma flattenRule_shape:
  "flattenRule c m root ty inputs = Some (Inr m') \<Longrightarrow> shaped m root c ty inputs m'"
  by (auto simp: flattenRule_def tryFlatteningOperands_def shaped_flatten
           split: option.splits dest!: flattenedOperands_Some)

lemma firstMatch_fires:
  "firstMatch rs m root ty inputs = Inr (Some m') \<Longrightarrow>
   \<exists>r \<in> set rs. r m root ty inputs = Some (Inr m')"
  by (induction rs) (auto split: option.splits sum.splits)

lemma canonicalize_shape:
  assumes "canonicalize m root = Inr (Some m')"
  shows "\<exists>c ty inputs. getDefiningOp m root = Some (Variadic c ty inputs) \<and>
           shaped m root c ty inputs m'"
proof -
  from assms obtain c ty inputs where d: "getDefiningOp m root = Some (Variadic c ty inputs)"
    by (auto simp: canonicalize_def split: option.splits Operation.splits)
  have len: "2 \<le> length inputs"
  proof (rule ccontr)
    assume "\<not> 2 \<le> length inputs"
    with assms d show False
      by (cases c) (auto simp: canonicalize_def AndOp_matchAndRewrite_def OrOp_matchAndRewrite_def
          XorOp_matchAndRewrite_def AddOp_matchAndRewrite_def MulOp_matchAndRewrite_def)
  qed
  note shapes = identityRule_shape idempotenceRule_shape constantPairRule_shape flattenRule_shape
    addShlRule_shape addMulRule_shape mulPowerOfTwoRule_shape
  have "shaped m root c ty inputs m'"
  proof (cases c)
    case AndOp
    with assms d have "firstMatch (commonRules AndOp) m root ty inputs = Inr (Some m')"
      by (simp add: canonicalize_def patterns_as_rule_lists [OF len])
    from firstMatch_fires [OF this] len AndOp show ?thesis
      by (auto simp: commonRules_def dest: shapes)
  next
    case OrOp
    with assms d have "firstMatch (commonRules OrOp) m root ty inputs = Inr (Some m')"
      by (simp add: canonicalize_def patterns_as_rule_lists [OF len])
    from firstMatch_fires [OF this] len OrOp show ?thesis
      by (auto simp: commonRules_def dest: shapes)
  next
    case XorOp
    with assms d have "XorOp_matchAndRewrite m root ty inputs = Inr (Some m')"
      by (simp add: canonicalize_def)
    then have "firstMatch (commonRules XorOp) m root ty inputs = Inr (Some m')"
      unfolding patterns_as_rule_lists(3) [OF len] by (simp split: if_splits)
    from firstMatch_fires [OF this] len XorOp show ?thesis
      by (auto simp: commonRules_def dest: shapes)
  next
    case AddOp
    with assms d have "firstMatch [identityRule AddOp, constantPairRule AddOp,
        idempotenceRule AddOp, addShlRule, addMulRule, flattenRule AddOp] m root ty inputs =
        Inr (Some m')"
      by (simp only: canonicalize_def patterns_as_rule_lists [OF len] option.case Operation.case
            OpClass.case)
    from firstMatch_fires [OF this] len AddOp show ?thesis
      by (auto dest: shapes)
  next
    case MulOp
    with assms d have "firstMatch [mulPowerOfTwoRule, identityRule MulOp, constantPairRule MulOp,
        flattenRule MulOp] m root ty inputs = Inr (Some m')"
      by (simp only: canonicalize_def patterns_as_rule_lists [OF len] option.case Operation.case
            OpClass.case)
    from firstMatch_fires [OF this] len MulOp show ?thesis
      by (auto dest: shapes)
  qed
  with d show ?thesis by blast
qed

lemma split_at_definition:
  "map_of b root = Some d \<Longrightarrow>
   \<exists>pre post. b = pre @ (root, d) # post \<and> root \<notin> fst ` set pre"
proof (induction b)
  case Nil
  then show ?case by simp
next
  case (Cons p b)
  show ?case
  proof (cases "fst p = root")
    case True
    with Cons.prems have "p # b = [] @ (root, d) # b \<and> root \<notin> fst ` set []"
      by (cases p) auto
    then show ?thesis by blast
  next
    case False
    with Cons.prems have "map_of b root = Some d" by (cases p) auto
    from Cons.IH [OF this] obtain pre post where "b = pre @ (root, d) # post"
      "root \<notin> fst ` set pre" by blast
    with False have "p # b = (p # pre) @ (root, d) # post \<and> root \<notin> fst ` set (p # pre)"
      by auto
    then show ?thesis by blast
  qed
qed

lemma insertBefore_split:
  "root \<notin> fst ` set pre \<Longrightarrow>
   insertBefore root e (pre @ (root, d) # post) = pre @ e # (root, d) # post"
  by (induction pre) auto

lemma update_split:
  "root \<notin> fst ` set pre \<Longrightarrow>
   AList.update root d' (pre @ (root, d) # post) = pre @ (root, d') # post"
  by (induction pre) auto

lemma createAll_body:
  "body m = pre @ (root, d) # post \<Longrightarrow> root \<notin> fst ` set pre \<Longrightarrow> root < nextValue m \<Longrightarrow>
   body (createAll m root news) = pre @ numbered (nextValue m) news @ (root, d) # post \<and>
   nextValue (createAll m root news) = nextValue m + length news"
proof (induction news arbitrary: m pre)
  case Nil
  then show ?case by simp
next
  case (Cons e news)
  let ?m1 = "snd (create m root e)"
  have b1: "body ?m1 = (pre @ [(nextValue m, e)]) @ (root, d) # post"
    using Cons.prems by (simp add: create_def insertBefore_split)
  have r1: "root \<notin> fst ` set (pre @ [(nextValue m, e)])" "root < nextValue ?m1"
    using Cons.prems by auto
  from Cons.IH [OF b1 r1] show ?case by simp
qed

lemma rewriteResult_body:
  assumes "body m = pre @ (root, d) # post" "root \<notin> fst ` set pre" "root < nextValue m"
  shows "body (rewriteResult m root c ty news ins) =
           pre @ numbered (nextValue m) news @ (root, Variadic c ty ins) # post"
    and "nextValue (rewriteResult m root c ty news ins) = nextValue m + length news"
proof -
  from createAll_body [OF assms, of news]
  have b: "body (createAll m root news) = (pre @ numbered (nextValue m) news) @ (root, d) # post"
    and n: "nextValue (createAll m root news) = nextValue m + length news"
    by simp_all
  have "root \<notin> fst ` set (numbered k news)" if "root < k" for k
    using that by (induction news arbitrary: k) auto
  with assms have r: "root \<notin> fst ` set (pre @ numbered (nextValue m) news)"
    by auto
  show "body (rewriteResult m root c ty news ins) =
           pre @ numbered (nextValue m) news @ (root, Variadic c ty ins) # post"
    using update_split [OF r, of "Variadic c ty ins" d post]
    by (simp add: rewriteResult_def replaceOpWithNewOp_def b)
  show "nextValue (rewriteResult m root c ty news ins) = nextValue m + length news"
    by (simp add: rewriteResult_def n)
qed

text \<open>What a pattern run does to the block, in one statement.\<close>

lemma canonicalize_body:
  assumes wf: "valuesBelowNext m" and step: "canonicalize m root = Inr (Some m')"
  shows "\<exists>c ty inputs news ins pre post.
           rewriteKind m c inputs news ins \<and>
           body m = pre @ (root, Variadic c ty inputs) # post \<and> root \<notin> fst ` set pre \<and>
           body m' = pre @ numbered (nextValue m) news @ (root, Variadic c ty ins) # post \<and>
           nextValue m' = nextValue m + length news"
proof -
  from canonicalize_shape [OF step] obtain c ty inputs news ins where
    d: "getDefiningOp m root = Some (Variadic c ty inputs)"
    and k: "rewriteKind m c inputs news ins"
    and m': "m' = rewriteResult m root c ty news ins"
    by (auto simp: shaped_def)
  from d obtain pre post where b: "body m = pre @ (root, Variadic c ty inputs) # post"
    "root \<notin> fst ` set pre"
    using split_at_definition [of "body m" root] by (auto simp: getDefiningOp_def)
  from defined_below [OF wf d] have r: "root < nextValue m" by simp
  from rewriteResult_body [OF b r, of c ty news ins] k b m' show ?thesis
    by blast
qed

subsection \<open>Types are preserved\<close>

lemma numbered_ids: "(v, d) \<in> set (numbered n news) \<Longrightarrow> n \<le> v \<and> v < n + length news"
  by (induction news arbitrary: n) fastforce+

lemma drop_back_subset: "set (drop_back k xs) \<subseteq> set xs"
  by (simp add: drop_back_def set_take_subset)

lemma nth_penultimate_in: "2 \<le> length xs \<Longrightarrow> xs ! (length xs - 2) \<in> set xs"
  by simp

lemma last_in: "2 \<le> length xs \<Longrightarrow> last xs \<in> set xs"
  by (cases xs) auto

lemma rewriteKind_operands:
  assumes wf: "valuesBelowNext m" and ins: "\<forall>x \<in> set inputs. x < nextValue m"
    and k: "rewriteKind m c inputs news ins'"
  shows "(\<forall>(v, d) \<in> set (numbered (nextValue m) news).
            \<forall>x \<in> set (getOperands d). x < nextValue m + length news) \<and>
         (\<forall>x \<in> set ins'. x < nextValue m + length news)"
proof -
  have db: "x < nextValue m" if "x \<in> set (drop_back j inputs)" for x j
    using that ins drop_back_subset [of j inputs] by blast
  have la: "2 \<le> length inputs \<Longrightarrow> last inputs < nextValue m"
    using ins last_in [of inputs] by blast
  have pe: "2 \<le> length inputs \<Longrightarrow> inputs ! (length inputs - 2) < nextValue m"
    using ins nth_penultimate_in [of inputs] by blast
  from k show ?thesis
  proof cases
    case dropLast
    then show ?thesis by (auto dest: db)
  next
    case dropLastTwo
    then show ?thesis by (auto dest: db)
  next
    case (foldPair k)
    then show ?thesis by (auto dest: db simp: less_Suc_eq)
  next
    case (double k t)
    then show ?thesis using la by (auto dest: db simp: less_Suc_eq)
  next
    case (shlToMul sty x rhs k t)
    then show ?thesis using pe by (auto dest: db simp: less_Suc_eq)
  next
    case (mulToMul mty x f1 k t)
    then show ?thesis using pe by (auto dest: db simp: less_Suc_eq)
  next
    case (toShift x cst k t)
    then show ?thesis using ins by (auto simp: less_Suc_eq)
  next
    case (flatten pre x post ty' ys)
    from flatten have "getDefiningOp m x = Some (Variadic c ty' ys)" by simp
    from defined_below [OF wf this] have "\<forall>y \<in> set ys. y < nextValue m" by simp
    with flatten ins show ?thesis by auto
  qed
qed

lemma valuesBelowNextD:
  "valuesBelowNext m \<Longrightarrow> (u, d) \<in> set (body m) \<Longrightarrow>
   u < nextValue m \<and> (\<forall>x \<in> set (getOperands d). x < nextValue m)"
  by (auto simp: valuesBelowNext_def)

lemma canonicalize_valuesBelowNext:
  assumes wf: "valuesBelowNext m" and step: "canonicalize m root = Inr (Some m')"
  shows "valuesBelowNext m'"
proof -
  from canonicalize_body [OF wf step] obtain c ty inputs news ins pre post where
    k: "rewriteKind m c inputs news ins"
    and b: "body m = pre @ (root, Variadic c ty inputs) # post"
    and b': "body m' = pre @ numbered (nextValue m) news @ (root, Variadic c ty ins) # post"
    and n': "nextValue m' = nextValue m + length news"
    by blast
  have old: "u < nextValue m \<and> (\<forall>x \<in> set (getOperands d). x < nextValue m)"
    if "(u, d) \<in> set pre \<union> set post" for u d
    using valuesBelowNextD [OF wf, of u d] b that by auto
  from valuesBelowNextD [OF wf, of root "Variadic c ty inputs"] b
  have r: "root < nextValue m" and ins: "\<forall>x \<in> set inputs. x < nextValue m"
    by auto
  from rewriteKind_operands [OF wf ins k]
  have new: "\<forall>x \<in> set (getOperands d). x < nextValue m'"
    if "(u, d) \<in> set (numbered (nextValue m) news)" for u d
    using that by (auto simp: n')
  from rewriteKind_operands [OF wf ins k]
  have ins': "\<forall>x \<in> set ins. x < nextValue m'"
    by (auto simp: n')
  have "u < nextValue m' \<and> (\<forall>x \<in> set (getOperands d). x < nextValue m')"
    if "(u, d) \<in> set (body m')" for u d
  proof -
    from that b' consider "(u, d) \<in> set pre \<union> set post"
      | "(u, d) \<in> set (numbered (nextValue m) news)" | "u = root" "d = Variadic c ty ins"
      by auto
    then show ?thesis
    proof cases
      case 1
      from old [OF this] show ?thesis by (auto simp: n')
    next
      case 2
      from new [OF this] numbered_ids [OF this] show ?thesis by (simp add: n')
    next
      case 3
      with ins' r show ?thesis by (simp add: n')
    qed
  qed
  then show ?thesis
    unfolding valuesBelowNext_def by blast
qed

lemma canonicalize_types:
  assumes wf: "valuesBelowNext m" and step: "canonicalize m root = Inr (Some m')"
    and v: "getDefiningOp m v = Some d"
  shows "\<exists>d'. getDefiningOp m' v = Some d' \<and> resultType d' = resultType d"
proof -
  from canonicalize_body [OF wf step] obtain c ty inputs news ins pre post where
    b: "body m = pre @ (root, Variadic c ty inputs) # post"
    and b': "body m' = pre @ numbered (nextValue m) news @ (root, Variadic c ty ins) # post"
    and rp: "root \<notin> fst ` set pre"
    by blast
  from defined_below [OF wf v] have "v < nextValue m" by simp
  with numbered_ids [of v _ "nextValue m" news]
  have nn: "map_of (numbered (nextValue m) news) v = None"
    by (force simp: map_of_eq_None_iff)
  show ?thesis
  proof (cases "map_of pre v")
    case (Some dv)
    with v b b' show ?thesis
      by (simp add: getDefiningOp_def map_add_def)
  next
    case None
    with v b b' nn show ?thesis
      by (auto simp: getDefiningOp_def map_add_def split: if_splits)
  qed
qed

lemma canonicalize_root_type:
  assumes wf: "valuesBelowNext m" and step: "canonicalize m root = Inr (Some m')"
  shows "\<exists>c ty inputs ins. getDefiningOp m root = Some (Variadic c ty inputs) \<and>
           getDefiningOp m' root = Some (Variadic c ty ins)"
proof -
  from canonicalize_body [OF wf step] obtain c ty inputs news ins pre post where
    b: "body m = pre @ (root, Variadic c ty inputs) # post"
    and b': "body m' = pre @ numbered (nextValue m) news @ (root, Variadic c ty ins) # post"
    and rp: "root \<notin> fst ` set pre"
    by blast
  from valuesBelowNextD [OF wf, of root "Variadic c ty inputs"] b have "root < nextValue m"
    by auto
  with numbered_ids [of root _ "nextValue m" news]
  have nn: "map_of (numbered (nextValue m) news) root = None"
    by (force simp: map_of_eq_None_iff)
  from rp have "map_of pre root = None"
    by (simp add: map_of_eq_None_iff)
  with b b' nn have "getDefiningOp m root = Some (Variadic c ty inputs) \<and>
      getDefiningOp m' root = Some (Variadic c ty ins)"
    by (simp add: getDefiningOp_def map_add_def)
  then show ?thesis by blast
qed

lemma canonicalizeStep_D:
  "canonicalizeStep m m' \<Longrightarrow> \<exists>root. canonicalize m root = Inr (Some m')"
  by (auto simp: canonicalizeStep_def)

lemma steps_preserve_types:
  "rtranclp canonicalizeStep m m' \<Longrightarrow> valuesBelowNext m \<Longrightarrow> getDefiningOp m v = Some d \<Longrightarrow>
   valuesBelowNext m' \<and> (\<exists>d'. getDefiningOp m' v = Some d' \<and> resultType d' = resultType d)"
proof (induction rule: rtranclp_induct)
  case base
  then show ?case by simp
next
  case (step m1 m2)
  from step.IH [OF step.prems] obtain d1 where wf1: "valuesBelowNext m1"
    and d1: "getDefiningOp m1 v = Some d1" "resultType d1 = resultType d"
    by blast
  from canonicalizeStep_D [OF step.hyps(2)] obtain root where
    c: "canonicalize m1 root = Inr (Some m2)" by blast
  from canonicalize_valuesBelowNext [OF wf1 c] canonicalize_types [OF wf1 c d1(1)] d1(2)
  show ?case by auto
qed

text \<open>
  C10. A pattern run replaces the node by a node of the same class and exactly the same
  result type, and no other defined value changes its type: after any number of pattern
  runs anywhere in the block every value has the type it had before.
\<close>

theorem rewrites_preserve_types:
  assumes wf: "valuesBelowNext m"
  shows "(canonicalize m root = Inr (Some m1) \<longrightarrow>
            (\<exists>c ty inputs ins. getDefiningOp m root = Some (Variadic c ty inputs) \<and>
               getDefiningOp m1 root = Some (Variadic c ty ins))) \<and>
         (rtranclp canonicalizeStep m m' \<and> getDefiningOp m v = Some d \<longrightarrow>
            getType m' v = getType m v)"
proof (intro conjI impI)
  assume "canonicalize m root = Inr (Some m1)"
  from canonicalize_root_type [OF wf this]
  show "\<exists>c ty inputs ins. getDefiningOp m root = Some (Variadic c ty inputs) \<and>
               getDefiningOp m1 root = Some (Variadic c ty ins)" .
next
  assume h: "rtranclp canonicalizeStep m m' \<and> getDefiningOp m v = Some d"
  with steps_preserve_types [of m m' v d] wf show "getType m' v = getType m v"
    by (auto simp: getType_def)
qed

lemma ex_types_steps:
  "canonicalize ex_types 12 = Inr (Some ex_types1)"
  "canonicalize ex_types1 12 = Inr (Some ex_types2)"
  by (simp_all add: canonicalize_def AndOp_matchAndRewrite_def lastIsConstant_def m_RConstant_def
        getDefiningOp_def isAllOnesValue_def replaceOpWithNewOp_def drop_back_def
        ex_types_def ex_types1_def ex_types2_def)

theorem rewrites_preserve_types_witness:
  "valuesBelowNext ex_types \<and> canonicalize ex_types 12 = Inr (Some ex_types1) \<and>
   rtranclp canonicalizeStep ex_types ex_types2 \<and>
   getDefiningOp ex_types 12 = Some (Variadic AndOp 8 [10, 10, 11]) \<and>
   getDefiningOp ex_types1 12 = Some (Variadic AndOp 8 [10, 10]) \<and>
   getType ex_types2 12 = getType ex_types 12 \<and> getType ex_types2 12 = 8"
proof -
  have wf: "valuesBelowNext ex_types"
    by (simp add: valuesBelowNext_def ex_types_def)
  have s1: "canonicalizeStep ex_types ex_types1"
    unfolding canonicalizeStep_def using ex_types_steps(1) by (force simp: ex_types_def)
  have s2: "canonicalizeStep ex_types1 ex_types2"
    unfolding canonicalizeStep_def using ex_types_steps(2) by (force simp: ex_types1_def)
  from s1 s2 have steps: "rtranclp canonicalizeStep ex_types ex_types2"
    by auto
  have d: "getDefiningOp ex_types 12 = Some (Variadic AndOp 8 [10, 10, 11])"
    "getDefiningOp ex_types1 12 = Some (Variadic AndOp 8 [10, 10])"
    by (simp_all add: getDefiningOp_def ex_types_def ex_types1_def)
  from rewrites_preserve_types [OF wf, of 12 ex_types1 ex_types2 12] steps d ex_types_steps(1)
  have "getType ex_types2 12 = getType ex_types 12" by simp
  moreover have "getType ex_types 12 = 8"
    by (simp add: getType_def d)
  ultimately show ?thesis
    using wf steps d ex_types_steps(1) by simp
qed

subsection \<open>Termination\<close>

lemma blockWeights_append:
  "blockWeights (xs @ ys) w = blockWeights ys (blockWeights xs w)"
  by (induction xs arbitrary: w) auto

lemma blockMeasure_append:
  "blockMeasure (xs @ ys) w = blockMeasure xs w + blockMeasure ys (blockWeights xs w)"
  by (induction xs arbitrary: w) auto

lemma blockWeights_other: "y \<notin> fst ` set b \<Longrightarrow> blockWeights b w y = w y"
  by (induction b arbitrary: w) auto

lemma sum_list_map_cong_le:
  "\<forall>y \<in> set xs. f y \<le> g y \<Longrightarrow> sum_list (map f xs) \<le> sum_list (map g xs)"
  for f g :: "'a \<Rightarrow> nat"
  by (induction xs) (auto intro: add_mono)

lemma opWeight_mono:
  "\<forall>y \<in> set (getOperands d). w y \<le> w' y \<Longrightarrow> opWeight w d \<le> opWeight w' d"
  by (cases d) (auto intro: sum_list_map_cong_le add_mono)

lemma opWeight_cong:
  "\<forall>y \<in> set (getOperands d). w y = w' y \<Longrightarrow> opWeight w d = opWeight w' d"
  using opWeight_mono [of d w w'] opWeight_mono [of d w' w] by simp

lemma blockMeasure_mono:
  "\<forall>(v, d) \<in> set b. \<forall>y \<in> set (getOperands d). w y \<le> w' y \<Longrightarrow>
   blockMeasure b w \<le> blockMeasure b w'"
proof (induction b arbitrary: w w')
  case Nil
  then show ?case by simp
next
  case (Cons p b)
  obtain v d where p: "p = (v, d)" by (cases p)
  from Cons.prems p have "\<forall>y \<in> set (getOperands d). w y \<le> w' y" by simp
  then have le: "opWeight w d \<le> opWeight w' d"
    by (rule opWeight_mono)
  from Cons.prems le have "\<forall>(u, e) \<in> set b. \<forall>y \<in> set (getOperands e).
      (w(v := opWeight w d)) y \<le> (w'(v := opWeight w' d)) y"
    by auto
  then have "blockMeasure b (w(v := opWeight w d)) \<le> blockMeasure b (w'(v := opWeight w' d))"
    by (rule Cons.IH)
  with le show ?case
    unfolding p by (simp add: add_mono)
qed

lemma sum_list_ge:
  "xs \<noteq> [] \<Longrightarrow> \<forall>y. 3 \<le> w y \<Longrightarrow> 3 \<le> sum_list (map w xs)" for w :: "'a \<Rightarrow> nat"
  by (cases xs) (auto intro: trans_le_add1)

lemma opWeight_ge:
  assumes w: "\<forall>y. 3 \<le> w y" and v: "variadicVerified d"
  shows "3 \<le> opWeight w d"
proof (cases d)
  case (Variadic c ty inputs)
  with v have "inputs \<noteq> []"
    by (auto simp: variadicVerified_def verifyUTVariadicRTLOp_def split: if_splits)
  from sum_list_ge [OF this w] Variadic show ?thesis by simp
next
  case (ShlOp ty lhs rhs)
  with w [rule_format, of lhs] show ?thesis by simp
next
  case (ExtractOp ty input lowBit)
  with w [rule_format, of input] show ?thesis by simp
next
  case (SExtOp ty input)
  with w [rule_format, of input] show ?thesis by simp
next
  case (ZExtOp ty input)
  with w [rule_format, of input] show ?thesis by simp
qed simp_all

lemma blockWeights_ge:
  "\<forall>y. 3 \<le> w y \<Longrightarrow> \<forall>(v, d) \<in> set b. variadicVerified d \<Longrightarrow>
   \<forall>y. 3 \<le> blockWeights b w y"
proof (induction b arbitrary: w)
  case Nil
  then show ?case by simp
next
  case (Cons p b)
  obtain v d where p: "p = (v, d)" by (cases p)
  from Cons.prems p have vd: "variadicVerified d" and rest: "\<forall>(v, d) \<in> set b. variadicVerified d"
    by auto
  have "3 \<le> opWeight w d"
    by (rule opWeight_ge [OF Cons.prems(1) vd])
  with Cons.prems(1) have "\<forall>y. 3 \<le> (w(v := opWeight w d)) y"
    by simp
  then have "\<forall>y. 3 \<le> blockWeights b (w(v := opWeight w d)) y"
    using rest by (rule Cons.IH)
  then show ?case
    unfolding p by simp
qed

lemma dominance_append:
  "dominance (xs @ ys) =
     (dominance xs \<and> dominance ys \<and>
      (\<forall>p \<in> set xs. fst p \<notin> fst ` set ys \<and> (\<forall>x \<in> set (getOperands (snd p)). x \<notin> fst ` set ys)))"
proof (induction xs)
  case Nil
  show ?case by simp
next
  case (Cons p xs)
  have "dominance ((p # xs) @ ys) =
     (fst p \<notin> fst ` set xs \<and> fst p \<notin> fst ` set ys \<and>
      (\<forall>x \<in> set (getOperands (snd p)). x \<noteq> fst p \<and> x \<notin> fst ` set xs \<and> x \<notin> fst ` set ys) \<and>
      dominance (xs @ ys))"
    by (simp add: image_Un)
  also have "\<dots> = (dominance (p # xs) \<and> dominance ys \<and>
      (\<forall>q \<in> set (p # xs). fst q \<notin> fst ` set ys \<and> (\<forall>x \<in> set (getOperands (snd q)). x \<notin> fst ` set ys)))"
    unfolding Cons.IH by auto
  finally show ?case .
qed

lemma blockWeights_defined:
  "dominance b \<Longrightarrow> map_of b x = Some dx \<Longrightarrow>
   blockWeights b w x = opWeight (blockWeights b w) dx"
proof (induction b arbitrary: w)
  case Nil
  then show ?case by simp
next
  case (Cons p b)
  obtain v d where p: "p = (v, d)" by (cases p)
  let ?w = "w(v := opWeight w d)"
  show ?case
  proof (cases "v = x")
    case True
    with Cons.prems p have dx: "dx = d" and nx: "x \<notin> fst ` set b"
      and ops: "\<forall>y \<in> set (getOperands d). y \<noteq> x \<and> y \<notin> fst ` set b"
      by auto
    from ops True have "\<forall>y \<in> set (getOperands d). blockWeights b ?w y = w y"
      by (simp add: blockWeights_other)
    then have "opWeight (blockWeights b ?w) d = opWeight w d"
      by (rule opWeight_cong)
    moreover have "blockWeights b ?w x = opWeight w d"
      using nx True by (simp add: blockWeights_other)
    ultimately show ?thesis
      unfolding p dx by simp
  next
    case False
    with Cons.prems p have "dominance b" "map_of b x = Some dx" by auto
    then have "blockWeights b ?w x = opWeight (blockWeights b ?w) dx"
      by (rule Cons.IH)
    then show ?thesis
      unfolding p by simp
  qed
qed

lemma power4_two: "a < D \<Longrightarrow> b < D \<Longrightarrow> 4 ^ a + 4 ^ b < (4::nat) ^ D"
proof -
  assume a: "a < D" and b: "b < D"
  then obtain E where D: "D = Suc E" by (cases D) auto
  from a b D have "(4::nat) ^ a \<le> 4 ^ E" "(4::nat) ^ b \<le> 4 ^ E"
    by (auto intro!: power_increasing)
  then have "(4::nat) ^ a + 4 ^ b \<le> 2 * 4 ^ E" by linarith
  also have "\<dots> < 4 ^ D" by (simp add: D)
  finally show ?thesis .
qed

lemma power4_three:
  "a < D \<Longrightarrow> b < D \<Longrightarrow> c < D \<Longrightarrow> 4 ^ a + 4 ^ b + 4 ^ c < (4::nat) ^ D"
proof -
  assume a: "a < D" and b: "b < D" and c: "c < D"
  then obtain E where D: "D = Suc E" by (cases D) auto
  from a b c D have "(4::nat) ^ a \<le> 4 ^ E" "(4::nat) ^ b \<le> 4 ^ E" "(4::nat) ^ c \<le> 4 ^ E"
    by (auto intro!: power_increasing)
  then have "(4::nat) ^ a + 4 ^ b + 4 ^ c \<le> 3 * 4 ^ E" by linarith
  also have "\<dots> < 4 ^ D" by (simp add: D)
  finally show ?thesis .
qed

lemma power4_one: "a < D \<Longrightarrow> 4 ^ a < (4::nat) ^ D"
  by (simp add: power_strict_increasing)

lemma split_last_two: "2 \<le> length xs \<Longrightarrow> \<exists>front a b. xs = front @ [a, b]"
proof -
  assume len: "2 \<le> length xs"
  then obtain ys b where xs: "xs = ys @ [b]"
    by (cases xs rule: rev_cases) auto
  with len obtain front a where "ys = front @ [a]"
    by (cases ys rule: rev_cases) auto
  with xs show ?thesis by simp
qed

lemma sum_list_upd_fresh:
  "\<forall>x \<in> set xs. x \<noteq> v \<Longrightarrow> sum_list (map (w(v := k)) xs) = sum_list (map w xs)"
  by (induction xs) auto

lemma drop_back_append2 [simp]: "drop_back 2 (front @ [a, b]) = front"
  by (simp add: drop_back_def)

lemma drop_back_append1: "drop_back (Suc 0) (front @ [a, b]) = front @ [a]"
  by (simp add: drop_back_def)

text \<open>
  The heart of termination: whatever rule fires, the new operations and the rewritten node
  together weigh less, in the measure, than the node did.
\<close>

lemma rewriteKind_decreases:
  assumes k: "rewriteKind m c inputs news ins"
    and ge: "\<forall>y. 3 \<le> w y"
    and below: "\<forall>x \<in> set inputs. x < nextValue m"
    and lookup: "\<forall>x \<in> set inputs. \<forall>dx. getDefiningOp m x = Some dx \<longrightarrow> w x = opWeight w dx"
  shows "blockMeasure (numbered (nextValue m) news) w +
           4 ^ opWeight (blockWeights (numbered (nextValue m) news) w) (Variadic c ty ins)
         < 4 ^ opWeight w (Variadic c ty inputs)"
proof -
  let ?n = "nextValue m"
  have fresh: "sum_list (map (w(?n := i, Suc ?n := j)) xs) = sum_list (map w xs)"
    "sum_list (map (w(?n := i)) xs) = sum_list (map w xs)"
    if "set xs \<subseteq> set inputs" for xs i j
  proof -
    from that below have "\<forall>x \<in> set xs. x < ?n"
      by blast
    then have "\<forall>x \<in> set xs. x \<noteq> ?n" "\<forall>x \<in> set xs. x \<noteq> Suc ?n"
      by auto
    then show "sum_list (map (w(?n := i, Suc ?n := j)) xs) = sum_list (map w xs)"
      "sum_list (map (w(?n := i)) xs) = sum_list (map w xs)"
      by (simp_all add: sum_list_upd_fresh)
  qed
  from k show ?thesis
  proof cases
    case dropLast
    then obtain front a b where i: "inputs = front @ [a, b]"
      using split_last_two by blast
    have "opWeight w (Variadic c ty (front @ [a])) < opWeight w (Variadic c ty (front @ [a, b]))"
      using ge [rule_format, of b] by simp
    with dropLast i show ?thesis
      by (simp add: drop_back_append1 power4_one del: opWeight.simps)
  next
    case dropLastTwo
    then obtain front a b where i: "inputs = front @ [a, b]"
      using split_last_two [of inputs] by auto
    have "opWeight w (Variadic c ty front) < opWeight w (Variadic c ty (front @ [a, b]))"
      by simp
    with dropLastTwo i show ?thesis
      by (simp add: power4_one del: opWeight.simps)
  next
    case (foldPair k)
    then obtain front a b where i: "inputs = front @ [a, b]"
      using split_last_two by blast
    have f: "sum_list (map (w(?n := 3)) front) = sum_list (map w front)"
      by (rule fresh) (auto simp: i)
    have "3 < opWeight w (Variadic c ty (front @ [a, b]))"
      and "opWeight (w(?n := 3)) (Variadic c ty (front @ [?n])) <
        opWeight w (Variadic c ty (front @ [a, b]))"
      using ge [rule_format, of a] ge [rule_format, of b] by (simp_all add: f)
    then have "4 ^ 3 + 4 ^ opWeight (w(?n := 3)) (Variadic c ty (front @ [?n])) <
        (4::nat) ^ opWeight w (Variadic c ty (front @ [a, b]))"
      by (rule power4_two)
    with foldPair i show ?thesis
      by (simp del: opWeight.simps add: opWeight.simps(1))
  next
    case (double k t)
    then obtain front a b where i: "inputs = front @ [a, b]"
      using split_last_two by blast
    let ?w2 = "w(?n := 3, Suc ?n := w b + 3)"
    from below i have b: "b \<noteq> ?n" by auto
    have f: "sum_list (map ?w2 front) = sum_list (map w front)"
      by (rule fresh) (auto simp: i)
    have "3 < opWeight w (Variadic c ty (front @ [a, b]))"
      and "w b + 3 < opWeight w (Variadic c ty (front @ [a, b]))"
      and "opWeight ?w2 (Variadic c ty (front @ [Suc ?n])) <
        opWeight w (Variadic c ty (front @ [a, b]))"
      using ge [rule_format, of a] ge [rule_format, of b] by (simp_all add: f)
    then have "4 ^ 3 + 4 ^ (w b + 3) + 4 ^ opWeight ?w2 (Variadic c ty (front @ [Suc ?n])) <
        (4::nat) ^ opWeight w (Variadic c ty (front @ [a, b]))"
      by (rule power4_three)
    with double i b show ?thesis
      by (simp del: opWeight.simps(2) add: add.assoc)
  next
    case (shlToMul sty x rhs k t)
    then obtain front a b where i: "inputs = front @ [a, b]"
      using split_last_two by blast
    with shlToMul have x: "x = a" and d: "getDefiningOp m b = Some (ShlOp sty a rhs)"
      by simp_all
    from lookup i d have wb: "w b = w a + w rhs" by simp
    let ?w2 = "w(?n := 3, Suc ?n := w a + 6)"
    from below i have a: "a \<noteq> ?n" by auto
    have f: "sum_list (map ?w2 front) = sum_list (map w front)"
      by (rule fresh) (auto simp: i)
    have "3 < opWeight w (Variadic c ty (front @ [a, b]))"
      and "w a + 6 < opWeight w (Variadic c ty (front @ [a, b]))"
      and "opWeight ?w2 (Variadic c ty (front @ [Suc ?n])) <
        opWeight w (Variadic c ty (front @ [a, b]))"
      using ge [rule_format, of a] ge [rule_format, of rhs] by (simp_all add: f wb)
    then have "4 ^ 3 + 4 ^ (w a + 6) + 4 ^ opWeight ?w2 (Variadic c ty (front @ [Suc ?n])) <
        (4::nat) ^ opWeight w (Variadic c ty (front @ [a, b]))"
      by (rule power4_three)
    moreover have "opWeight (w(?n := 3)) (Variadic MulOp t [a, ?n]) = w a + 6"
      using a by simp
    ultimately show ?thesis
      using shlToMul(1,2) i x by (simp del: opWeight.simps(2) add: add.assoc)
  next
    case (mulToMul mty x f1 k t)
    then obtain front a b where i: "inputs = front @ [a, b]"
      using split_last_two by blast
    with mulToMul have x: "x = a" and d: "getDefiningOp m b = Some (Variadic MulOp mty [a, f1])"
      by simp_all
    from lookup i d have wb: "w b = 3 + w a + w f1" by simp
    let ?w2 = "w(?n := 3, Suc ?n := w a + 6)"
    from below i have a: "a \<noteq> ?n" by auto
    have f: "sum_list (map ?w2 front) = sum_list (map w front)"
      by (rule fresh) (auto simp: i)
    have "3 < opWeight w (Variadic c ty (front @ [a, b]))"
      and "w a + 6 < opWeight w (Variadic c ty (front @ [a, b]))"
      and "opWeight ?w2 (Variadic c ty (front @ [Suc ?n])) <
        opWeight w (Variadic c ty (front @ [a, b]))"
      using ge [rule_format, of a] ge [rule_format, of f1] by (simp_all add: f wb)
    then have "4 ^ 3 + 4 ^ (w a + 6) + 4 ^ opWeight ?w2 (Variadic c ty (front @ [Suc ?n])) <
        (4::nat) ^ opWeight w (Variadic c ty (front @ [a, b]))"
      by (rule power4_three)
    moreover have "opWeight (w(?n := 3)) (Variadic MulOp t [a, ?n]) = w a + 6"
      using a by simp
    ultimately show ?thesis
      using mulToMul(1,2) i x by (simp del: opWeight.simps(2) add: add.assoc)
  next
    case (toShift x cst k t)
    let ?w2 = "w(?n := 3, Suc ?n := w x + 3)"
    from below toShift have xn: "x \<noteq> ?n" by auto
    have "3 < opWeight w (Variadic c ty [x, cst])"
      and "w x + 3 < opWeight w (Variadic c ty [x, cst])"
      and "opWeight ?w2 (Variadic c ty [Suc ?n]) < opWeight w (Variadic c ty [x, cst])"
      using ge [rule_format, of x] ge [rule_format, of cst] by simp_all
    then have "4 ^ 3 + 4 ^ (w x + 3) + 4 ^ opWeight ?w2 (Variadic c ty [Suc ?n]) <
        (4::nat) ^ opWeight w (Variadic c ty [x, cst])"
      by (rule power4_three)
    with toShift xn show ?thesis
      by (simp del: opWeight.simps(2) add: add.assoc)
  next
    case (flatten pre x post ty' ys)
    with lookup have "w x = opWeight w (Variadic c ty' ys)" by simp
    then have "opWeight w (Variadic c ty (pre @ ys @ post)) <
        opWeight w (Variadic c ty (pre @ x # post))"
      by simp
    with flatten show ?thesis
      by (simp add: power4_one del: opWeight.simps)
  qed
qed

lemma wellFormedD:
  "wellFormed m \<Longrightarrow> valuesBelowNext m"
  "wellFormed m \<Longrightarrow> dominance (body m)"
  "wellFormed m \<Longrightarrow> (v, d) \<in> set (body m) \<Longrightarrow> variadicVerified d"
  by (auto simp: wellFormed_def)

lemma operand_defined_before:
  assumes dom: "dominance (pre @ (root, d) # post)"
    and x: "x \<in> set (getOperands d)"
    and dx: "map_of (pre @ (root, d) # post) x = Some dx"
  shows "map_of pre x = Some dx"
proof -
  from dom x have "x \<noteq> root" "x \<notin> fst ` set post"
    by (auto simp: dominance_append)
  then have "map_of ((root, d) # post) x = None"
    by (simp add: map_of_eq_None_iff)
  with dx show ?thesis
    by (simp add: map_add_def split: option.splits)
qed

lemma canonicalize_decreases:
  assumes wf: "wellFormed m" and step: "canonicalize m root = Inr (Some m')"
  shows "irMeasure m' < irMeasure m"
proof -
  note vb = wellFormedD(1) [OF wf]
  from canonicalize_body [OF vb step] obtain c ty inputs news ins pre post where
    k: "rewriteKind m c inputs news ins"
    and b: "body m = pre @ (root, Variadic c ty inputs) # post"
    and b': "body m' = pre @ numbered (nextValue m) news @ (root, Variadic c ty ins) # post"
    by blast
  define w0 where "w0 = (\<lambda>v::Value. 3::nat)"
  define w1 where "w1 = blockWeights pre w0"
  define N where "N = numbered (nextValue m) news"
  define w2 where "w2 = blockWeights N w1"
  define W where "W = opWeight w1 (Variadic c ty inputs)"
  define W' where "W' = opWeight w2 (Variadic c ty ins)"
  have vpre: "\<forall>(v, d) \<in> set pre. variadicVerified d"
    using wellFormedD(3) [OF wf] b by auto
  have "\<forall>y. 3 \<le> w0 y"
    by (simp add: w0_def)
  then have ge: "\<forall>y. 3 \<le> w1 y"
    unfolding w1_def using vpre by (rule blockWeights_ge)
  from valuesBelowNextD [OF vb, of root "Variadic c ty inputs"] b
  have below: "\<forall>x \<in> set inputs. x < nextValue m" by simp
  from wellFormedD(2) [OF wf] b have dom: "dominance (pre @ (root, Variadic c ty inputs) # post)"
    by simp
  then have dpre: "dominance pre"
    by (simp only: dominance_append)
  have lookup: "\<forall>x \<in> set inputs. \<forall>dx. getDefiningOp m x = Some dx \<longrightarrow> w1 x = opWeight w1 dx"
  proof (intro ballI allI impI)
    fix x dx
    assume x: "x \<in> set inputs" and "getDefiningOp m x = Some dx"
    with b have mo: "map_of (pre @ (root, Variadic c ty inputs) # post) x = Some dx"
      by (simp only: getDefiningOp_def)
    from x have xo: "x \<in> set (getOperands (Variadic c ty inputs))"
      by simp
    from dom xo mo have "map_of pre x = Some dx"
      by (rule operand_defined_before)
    with dpre show "w1 x = opWeight w1 dx"
      unfolding w1_def by (rule blockWeights_defined)
  qed
  from rewriteKind_decreases [OF k ge below lookup, of ty]
  have dec: "blockMeasure N w1 + 4 ^ W' < 4 ^ W"
    by (simp only: N_def w2_def W_def W'_def)
  then have "(4::nat) ^ W' < 4 ^ W" by linarith
  then have le: "W' \<le> W" by simp
  have "\<forall>(v, e) \<in> set post. \<forall>y \<in> set (getOperands e). (w2(root := W')) y \<le> (w1(root := W)) y"
  proof (intro ballI, clarify)
    fix v e y
    assume ve: "(v, e) \<in> set post" and y: "y \<in> set (getOperands e)"
    from ve b have "(v, e) \<in> set (body m)" by simp
    from valuesBelowNextD [OF vb this] y have "y < nextValue m" by simp
    with numbered_ids [of y _ "nextValue m" news] have "y \<notin> fst ` set N"
      unfolding N_def by force
    then have "w2 y = w1 y"
      unfolding w2_def by (rule blockWeights_other)
    with le show "(w2(root := W')) y \<le> (w1(root := W)) y" by simp
  qed
  then have mono: "blockMeasure post (w2(root := W')) \<le> blockMeasure post (w1(root := W))"
    by (rule blockMeasure_mono)
  have m: "irMeasure m = blockMeasure pre w0 + (4 ^ W + blockMeasure post (w1(root := W)))"
    unfolding irMeasure_def b blockMeasure_append blockMeasure.simps fst_conv snd_conv
    by (simp only: w0_def w1_def W_def)
  have m': "irMeasure m' = blockMeasure pre w0 +
      (blockMeasure N w1 + (4 ^ W' + blockMeasure post (w2(root := W'))))"
    unfolding irMeasure_def b' blockMeasure_append blockWeights_append blockMeasure.simps
      fst_conv snd_conv
    by (simp only: w0_def w1_def W'_def N_def w2_def)
  from dec mono show ?thesis
    unfolding m m' by linarith
qed

lemma rewriteKind_news:
  assumes k: "rewriteKind m c inputs news ins"
    and below: "\<forall>x \<in> set inputs. x < nextValue m"
  shows "dominance (numbered (nextValue m) news)"
    and "\<forall>p \<in> set (numbered (nextValue m) news). variadicVerified (snd p) \<and>
           (\<forall>x \<in> set (getOperands (snd p)). x \<in> set inputs \<or> nextValue m \<le> x)"
    and "\<forall>x \<in> set ins. x \<in> set inputs \<or> nextValue m \<le> x \<or>
           (\<exists>y \<in> set inputs. \<exists>ty' ys. getDefiningOp m y = Some (Variadic c ty' ys) \<and> x \<in> set ys)"
proof -
  have db: "x \<in> set inputs" if "x \<in> set (drop_back j inputs)" for x j
    using that drop_back_subset [of j inputs] by blast
  have vv: "variadicVerified (ConstantOp k)" "variadicVerified (ShlOp t a b)"
    "variadicVerified (Variadic MulOp t [a, b])" for k t a b
    by (simp_all add: variadicVerified_def verifyUTVariadicRTLOp_def)
  have la: "2 \<le> length inputs \<Longrightarrow> last inputs < nextValue m"
    using below last_in [of inputs] by blast
  have pe: "2 \<le> length inputs \<Longrightarrow> inputs ! (length inputs - 2) < nextValue m"
    using below nth_penultimate_in [of inputs] by blast
  from k show "dominance (numbered (nextValue m) news)"
  proof cases
    case (double k t)
    with la show ?thesis by auto
  next
    case (shlToMul sty x rhs k t)
    with pe show ?thesis by auto
  next
    case (mulToMul mty x f1 k t)
    with pe show ?thesis by auto
  next
    case (toShift x cst k t)
    with below show ?thesis by auto
  qed auto
  from k show "\<forall>p \<in> set (numbered (nextValue m) news). variadicVerified (snd p) \<and>
           (\<forall>x \<in> set (getOperands (snd p)). x \<in> set inputs \<or> nextValue m \<le> x)"
    by cases (auto simp: vv dest: last_in nth_penultimate_in)
  from k show "\<forall>x \<in> set ins. x \<in> set inputs \<or> nextValue m \<le> x \<or>
           (\<exists>y \<in> set inputs. \<exists>ty' ys. getDefiningOp m y = Some (Variadic c ty' ys) \<and> x \<in> set ys)"
  proof cases
    case (flatten pre x post ty' ys)
    then show ?thesis by auto
  qed (auto dest: db)
qed

lemma rewriteKind_nonempty:
  assumes k: "rewriteKind m c inputs news ins"
    and v: "\<forall>(v, d) \<in> set (body m). variadicVerified d"
  shows "ins \<noteq> []"
  using k
proof cases
  case dropLast
  then show ?thesis by (cases inputs) (auto simp: drop_back_def)
next
  case dropLastTwo
  then show ?thesis by (cases inputs) (auto simp: drop_back_def)
next
  case (flatten pre x post ty' ys)
  then have "(x, Variadic c ty' ys) \<in> set (body m)"
    by (auto simp: getDefiningOp_def dest: map_of_SomeD)
  with v have "variadicVerified (Variadic c ty' ys)" by blast
  then have "ys \<noteq> []"
    by (auto simp: variadicVerified_def verifyUTVariadicRTLOp_def split: if_splits)
  with flatten show ?thesis by simp
qed simp_all

lemma canonicalize_wellFormed:
  assumes wf: "wellFormed m" and step: "canonicalize m root = Inr (Some m')"
  shows "wellFormed m'"
proof -
  note vb = wellFormedD(1) [OF wf]
  from canonicalize_body [OF vb step] obtain c ty inputs news ins pre post where
    k: "rewriteKind m c inputs news ins"
    and b: "body m = pre @ (root, Variadic c ty inputs) # post"
    and b': "body m' = pre @ numbered (nextValue m) news @ (root, Variadic c ty ins) # post"
    by blast
  define n where "n = nextValue m"
  define N where "N = numbered n news"
  have old: "u < n \<and> (\<forall>x \<in> set (getOperands d). x < n)" if "(u, d) \<in> set (body m)" for u d
    using valuesBelowNextD [OF vb that] by (simp add: n_def)
  from old [of root "Variadic c ty inputs"] b
  have r: "root < n" and below: "\<forall>x \<in> set inputs. x < n" by auto
  have ids: "n \<le> u" if "(u, d) \<in> set N" for u d
    using numbered_ids [of u d n news] that by (simp add: N_def)
  from wellFormedD(2) [OF wf] b have dom: "dominance (pre @ (root, Variadic c ty inputs) # post)"
    by simp
  then have dpre: "dominance pre" and dpost: "dominance post"
    and rpost: "root \<notin> fst ` set post"
    and inp: "\<forall>x \<in> set inputs. x \<noteq> root \<and> x \<notin> fst ` set post"
    and cross: "\<forall>p \<in> set pre. fst p \<noteq> root \<and> fst p \<notin> fst ` set post \<and>
        (\<forall>x \<in> set (getOperands (snd p)). x \<noteq> root \<and> x \<notin> fst ` set post)"
    by (auto simp: dominance_append)
  note news = rewriteKind_news [OF k below [unfolded n_def], folded n_def, folded N_def]
  have vold: "\<forall>(v, d) \<in> set (body m). variadicVerified d"
    using wellFormedD(3) [OF wf] by blast
  have flat: "y \<noteq> root \<and> y \<notin> fst ` set post"
    if "x \<in> set inputs" "getDefiningOp m x = Some d" "y \<in> set (getOperands d)" for x d y
  proof -
    from that(1) have xo: "x \<in> set (getOperands (Variadic c ty inputs))" by simp
    from that(2) b have "map_of (pre @ (root, Variadic c ty inputs) # post) x = Some d"
      by (simp only: getDefiningOp_def)
    with dom xo have "map_of pre x = Some d"
      by (rule operand_defined_before)
    then have "(x, d) \<in> set pre" by (rule map_of_SomeD)
    with cross that(3) show ?thesis by force
  qed
  have insok: "x \<noteq> root \<and> x \<notin> fst ` set post" if "x \<in> set ins" for x
  proof -
    from news(3) that consider "x \<in> set inputs" | "n \<le> x"
      | y ty' ys where "y \<in> set inputs" "getDefiningOp m y = Some (Variadic c ty' ys)" "x \<in> set ys"
      by blast
    then show ?thesis
    proof cases
      case 1
      with inp show ?thesis by blast
    next
      case 2
      have "u < n" if "u \<in> fst ` set post" for u
        using that old b by force
      from this [of x] 2 r show ?thesis by auto
    next
      case 3
      from flat [OF 3(1,2)] 3(3) show ?thesis by simp
    qed
  qed
  have postlt: "u < n" if "u \<in> fst ` set post" for u
    using that old b by force
  have nold: "u \<noteq> root \<and> u \<notin> fst ` set post" if "n \<le> u" for u
  proof -
    from that r have "u \<noteq> root" by simp
    moreover from postlt [of u] that have "u \<notin> fst ` set post" by auto
    ultimately show ?thesis by simp
  qed
  have newok: "fst p \<noteq> root \<and> fst p \<notin> fst ` set post \<and>
      (\<forall>x \<in> set (getOperands (snd p)). x \<noteq> root \<and> x \<notin> fst ` set post)"
    if "p \<in> set N" for p
  proof -
    from ids [of "fst p" "snd p"] that have "n \<le> fst p" by simp
    then have 1: "fst p \<noteq> root \<and> fst p \<notin> fst ` set post" by (rule nold)
    have "x \<noteq> root \<and> x \<notin> fst ` set post" if x: "x \<in> set (getOperands (snd p))" for x
    proof -
      from news(2) \<open>p \<in> set N\<close> x have "x \<in> set inputs \<or> n \<le> x"
        unfolding N_def by blast
      then show ?thesis
      proof
        assume "x \<in> set inputs"
        with inp show ?thesis by blast
      next
        assume "n \<le> x"
        then show ?thesis by (rule nold)
      qed
    qed
    with 1 show ?thesis by blast
  qed
  have d2: "dominance (N @ (root, Variadic c ty ins) # post)"
    unfolding dominance_append using news(1) dpost rpost insok newok by simp
  have preok: "fst p \<notin> fst ` set (N @ (root, Variadic c ty ins) # post) \<and>
      (\<forall>x \<in> set (getOperands (snd p)). x \<notin> fst ` set (N @ (root, Variadic c ty ins) # post))"
    if "p \<in> set pre" for p
  proof -
    from that b have "(fst p, snd p) \<in> set (body m)" by simp
    from old [OF this] have lt: "fst p < n" "\<forall>x \<in> set (getOperands (snd p)). x < n" by auto
    have nN: "u \<notin> fst ` set N" if "u < n" for u
      using that ids by force
    from cross that lt nN show ?thesis
      by (auto simp: image_Un)
  qed
  have dom': "dominance (body m')"
    unfolding b' n_def [symmetric] N_def [symmetric]
    by (subst dominance_append) (use dpre d2 preok in blast)
  have ne: "ins \<noteq> []"
    by (rule rewriteKind_nonempty [OF k vold])
  have "variadicVerified d" if "(v, d) \<in> set (body m')" for v d
  proof -
    from that b' consider "(v, d) \<in> set pre \<union> set post" | "(v, d) \<in> set N"
      | "d = Variadic c ty ins"
      by (auto simp: N_def n_def)
    then show ?thesis
    proof cases
      case 1
      with b have "(v, d) \<in> set (body m)" by auto
      with vold show ?thesis by blast
    next
      case 2
      with news(2) show ?thesis unfolding N_def by force
    next
      case 3
      with ne show ?thesis
        by (simp add: variadicVerified_def verifyUTVariadicRTLOp_def)
    qed
  qed
  with canonicalize_valuesBelowNext [OF vb step] dom' show ?thesis
    unfolding wellFormed_def by blast
qed

lemma member_le_sum_list_nat: "x \<in> set xs \<Longrightarrow> w x \<le> sum_list (map w xs)" for w :: "'a \<Rightarrow> nat"
  by (induction xs) auto

lemma foldOp_value:
  assumes "foldOp m d = Inr (FoldValue x)"
  shows "x \<in> set (getOperands d) \<and> w x < opWeight w d"
proof (cases d)
  case (Variadic c ty inputs)
  have v: "x \<in> set inputs"
    using assms Variadic
    by (cases c)
       (auto simp: AndOp_fold_def OrOp_fold_def XorOp_fold_def AddOp_fold_def MulOp_fold_def
          split: if_splits option.splits)
  from member_le_sum_list_nat [OF this, of w] v Variadic show ?thesis by simp
next
  case (ExtractOp ty input lowBit)
  with assms show ?thesis
    by (auto simp: ExtractOp_fold_def split: if_splits option.splits sum.splits)
qed (use assms in auto)

lemma foldOp_attr:
  assumes "foldOp m d = Inr (FoldAttr a)" "\<not> isConstant d" "\<forall>y. 3 \<le> w y"
  shows "3 < opWeight w d"
proof (cases d)
  case (Variadic c ty inputs)
  with assms(1) obtain x where "inputs = [x, x]"
    by (cases c; cases inputs; cases "tl inputs")
       (auto simp: AndOp_fold_def OrOp_fold_def XorOp_fold_def AddOp_fold_def MulOp_fold_def
          split: if_splits option.splits)
  with Variadic assms(3) [rule_format, of x] show ?thesis by simp
next
  case (ExtractOp ty input lowBit)
  with assms(3) [rule_format, of input] show ?thesis by simp
qed (use assms in \<open>auto simp: isConstant_def\<close>)

text \<open>Replacing an operation by one that uses a subset of its operands.\<close>

lemma dominance_replace:
  assumes "dominance (pre @ (root, d) # post)" "set (getOperands d') \<subseteq> set (getOperands d)"
  shows "dominance (pre @ (root, d') # post)"
  using assms unfolding dominance_append by auto

lemma foldToConstant_decreases:
  assumes wf: "wellFormed m" and d: "getDefiningOp m root = Some d"
    and nc: "\<not> isConstant d" and f: "foldOp m d = Inr (FoldAttr a)"
  shows "irMeasure (replaceOpWithNewOp m root (ConstantOp a)) < irMeasure m"
    and "wellFormed (replaceOpWithNewOp m root (ConstantOp a))"
proof -
  note vb = wellFormedD(1) [OF wf]
  from d obtain pre post where b: "body m = pre @ (root, d) # post" "root \<notin> fst ` set pre"
    using split_at_definition [of "body m" root] by (auto simp: getDefiningOp_def)
  let ?m' = "replaceOpWithNewOp m root (ConstantOp a)"
  have b': "body ?m' = pre @ (root, ConstantOp a) # post"
    by (simp add: replaceOpWithNewOp_def b update_split)
  define w0 where "w0 = (\<lambda>v::Value. 3::nat)"
  define w1 where "w1 = blockWeights pre w0"
  define W where "W = opWeight w1 d"
  have vpre: "\<forall>(v, d) \<in> set pre. variadicVerified d"
    using wellFormedD(3) [OF wf] b by auto
  have "\<forall>y. 3 \<le> w0 y"
    by (simp add: w0_def)
  then have ge: "\<forall>y. 3 \<le> w1 y"
    unfolding w1_def using vpre by (rule blockWeights_ge)
  from foldOp_attr [OF f nc ge] have W: "3 < W" by (simp add: W_def)
  have "\<forall>(v, e) \<in> set post. \<forall>y \<in> set (getOperands e). (w1(root := 3)) y \<le> (w1(root := W)) y"
    using W by auto
  then have mono: "blockMeasure post (w1(root := 3)) \<le> blockMeasure post (w1(root := W))"
    by (rule blockMeasure_mono)
  have m: "irMeasure m = blockMeasure pre w0 + (4 ^ W + blockMeasure post (w1(root := W)))"
    unfolding irMeasure_def b blockMeasure_append blockMeasure.simps fst_conv snd_conv
    by (simp only: w0_def w1_def W_def)
  have m': "irMeasure ?m' = blockMeasure pre w0 + (4 ^ 3 + blockMeasure post (w1(root := 3)))"
    unfolding irMeasure_def b' blockMeasure_append blockMeasure.simps fst_conv snd_conv
      opWeight.simps
    by (simp only: w0_def w1_def)
  from W have "(4::nat) ^ 3 < 4 ^ W"
    by (rule power4_one)
  with mono show "irMeasure ?m' < irMeasure m"
    unfolding m m' by linarith
  from valuesBelowNextD [OF vb, of root d] b have "root < nextValue m" by simp
  then have vb': "valuesBelowNext ?m'"
    by (intro valuesBelowNext_replace [OF vb]) simp_all
  from wellFormedD(2) [OF wf] b have "dominance (pre @ (root, d) # post)" by simp
  then have dom': "dominance (body ?m')"
    unfolding b' by (rule dominance_replace) simp
  have "variadicVerified e" if "(v, e) \<in> set (body ?m')" for v e
  proof -
    from that b' b consider "(v, e) \<in> set (body m)" | "e = ConstantOp a" by auto
    then show ?thesis
      using wellFormedD(3) [OF wf] by cases (auto simp: variadicVerified_def)
  qed
  with vb' dom' show "wellFormed ?m'"
    unfolding wellFormed_def by blast
qed

lemma getOperands_mapOperands: "getOperands (mapOperands f e) = map f (getOperands e)"
  by (cases e) simp_all

lemma opWeight_mapOperands: "opWeight w (mapOperands f e) = opWeight (\<lambda>y. w (f y)) e"
  by (cases e) (simp_all add: comp_def)

lemma mapOperands_id: "\<forall>y \<in> set (getOperands e). f y = y \<Longrightarrow> mapOperands f e = e"
  by (cases e) (simp_all add: map_idI)

lemma variadicVerified_mapOperands: "variadicVerified (mapOperands f e) = variadicVerified e"
  by (cases e) (simp_all add: variadicVerified_def verifyUTVariadicRTLOp_def)

lemma fst_map_subst: "fst ` set (map (\<lambda>p. (fst p, g (snd p))) b) = fst ` set b"
  by (induction b) auto

lemma fst_image_subst: "fst ` (\<lambda>p. (fst p, g (snd p))) ` S = fst ` S"
  by (simp add: image_image)

lemma subst_measure:
  assumes "root \<notin> fst ` set post" "x \<notin> fst ` set post"
    and "wa x \<le> wb root" "\<forall>y. y \<noteq> root \<longrightarrow> wa y \<le> wb y"
  shows "blockMeasure (map (\<lambda>p. (fst p, mapOperands (\<lambda>y. if y = root then x else y) (snd p))) post) wa
         \<le> blockMeasure post wb"
  using assms
proof (induction post arbitrary: wa wb)
  case Nil
  then show ?case by simp
next
  case (Cons p post)
  let ?s = "\<lambda>y. if y = root then x else y"
  obtain v e where p: "p = (v, e)" by (cases p)
  from Cons.prems p have v: "v \<noteq> root" "v \<noteq> x" by auto
  have "\<forall>y \<in> set (getOperands e). wa (?s y) \<le> wb y"
    using Cons.prems(3,4) by auto
  then have le: "opWeight wa (mapOperands ?s e) \<le> opWeight wb e"
    unfolding opWeight_mapOperands by (rule opWeight_mono)
  have "blockMeasure (map (\<lambda>p. (fst p, mapOperands ?s (snd p))) post)
          (wa(v := opWeight wa (mapOperands ?s e)))
        \<le> blockMeasure post (wb(v := opWeight wb e))"
  proof (rule Cons.IH)
    show "root \<notin> fst ` set post" "x \<notin> fst ` set post"
      using Cons.prems(1,2) by auto
    show "(wa(v := opWeight wa (mapOperands ?s e))) x \<le> (wb(v := opWeight wb e)) root"
      using v Cons.prems(3) by simp
    show "\<forall>y. y \<noteq> root \<longrightarrow>
        (wa(v := opWeight wa (mapOperands ?s e))) y \<le> (wb(v := opWeight wb e)) y"
      using le Cons.prems(4) by simp
  qed
  with le show ?case
    unfolding p by (simp add: add_mono del: opWeight.simps)
qed

lemma dominance_subst:
  assumes "dominance post" "x \<notin> fst ` set post"
  shows "dominance (map (\<lambda>p. (fst p, mapOperands (\<lambda>y. if y = root then x else y) (snd p))) post)"
  using assms
proof (induction post)
  case Nil
  show ?case by simp
next
  case (Cons p post)
  let ?s = "\<lambda>y. if y = root then x else y"
  from Cons.prems have v: "fst p \<notin> fst ` set post" and xv: "x \<noteq> fst p"
    and xp: "x \<notin> fst ` set post" and dp: "dominance post"
    and ops: "\<forall>y \<in> set (getOperands (snd p)). y \<noteq> fst p \<and> y \<notin> fst ` set post"
    by auto
  from ops xv xp have "\<forall>y \<in> set (getOperands (snd p)). ?s y \<noteq> fst p \<and> ?s y \<notin> fst ` set post"
    by simp
  then have "\<forall>y \<in> set (map ?s (getOperands (snd p))). y \<noteq> fst p \<and> y \<notin> fst ` set post"
    by (auto split: if_splits)
  with v Cons.IH [OF dp xp] show ?case
    by (simp add: getOperands_mapOperands fst_map_subst del: set_map)
qed

lemma replaceOpWithValue_body:
  assumes dom: "dominance (pre @ (root, d) # post)" and b: "body m = pre @ (root, d) # post"
    and rp: "root \<notin> fst ` set pre"
  shows "body (replaceOpWithValue m root x) =
           pre @ map (\<lambda>p. (fst p, mapOperands (\<lambda>y. if y = root then x else y) (snd p))) post"
proof -
  let ?s = "\<lambda>y. if y = root then x else y"
  from dom have rpost: "root \<notin> fst ` set post"
    and cross: "\<forall>p \<in> set pre. \<forall>y \<in> set (getOperands (snd p)). y \<noteq> root"
    by (auto simp: dominance_append)
  have f1: "filter (\<lambda>p. fst p \<noteq> root) pre = pre"
    using rp by (auto simp: filter_id_conv)
  have f2: "filter (\<lambda>p. fst p \<noteq> root) post = post"
    using rpost by (auto simp: filter_id_conv)
  have "map (\<lambda>p. (fst p, mapOperands ?s (snd p))) pre = map (\<lambda>p. p) pre"
  proof (rule map_cong [OF refl])
    fix p assume "p \<in> set pre"
    with cross have "\<forall>y \<in> set (getOperands (snd p)). ?s y = y" by auto
    then have "mapOperands ?s (snd p) = snd p" by (rule mapOperands_id)
    then show "(fst p, mapOperands ?s (snd p)) = p" by simp
  qed
  then have m1: "map (\<lambda>p. (fst p, mapOperands ?s (snd p))) pre = pre" by simp
  show ?thesis
    by (simp add: replaceOpWithValue_def b f1 f2 m1)
qed

lemma foldToValue_decreases:
  assumes wf: "wellFormed m" and d: "getDefiningOp m root = Some d"
    and f: "foldOp m d = Inr (FoldValue x)"
  shows "irMeasure (replaceOpWithValue m root x) < irMeasure m"
    and "wellFormed (replaceOpWithValue m root x)"
proof -
  note vb = wellFormedD(1) [OF wf]
  let ?s = "\<lambda>y. if y = root then x else y"
  let ?post = "\<lambda>post. map (\<lambda>p. (fst p, mapOperands ?s (snd p))) post"
  from d obtain pre post where b: "body m = pre @ (root, d) # post" "root \<notin> fst ` set pre"
    using split_at_definition [of "body m" root] by (auto simp: getDefiningOp_def)
  let ?m' = "replaceOpWithValue m root x"
  from wellFormedD(2) [OF wf] b have dom: "dominance (pre @ (root, d) # post)" by simp
  have b': "body ?m' = pre @ ?post post"
    by (rule replaceOpWithValue_body [OF dom b])
  define w0 where "w0 = (\<lambda>v::Value. 3::nat)"
  define w1 where "w1 = blockWeights pre w0"
  define W where "W = opWeight w1 d"
  from foldOp_value [OF f, of w1] have xo: "x \<in> set (getOperands d)" and xW: "w1 x < W"
    by (simp_all add: W_def)
  from dom xo have rpost: "root \<notin> fst ` set post" and xpost: "x \<notin> fst ` set post"
    and dpre: "dominance pre" and dpost: "dominance post"
    and cross: "\<forall>p \<in> set pre. fst p \<notin> fst ` set post \<and>
        (\<forall>y \<in> set (getOperands (snd p)). y \<notin> fst ` set post)"
    by (auto simp: dominance_append)
  have "blockMeasure (?post post) w1 \<le> blockMeasure post (w1(root := W))"
    by (rule subst_measure [OF rpost xpost]) (use xW in auto)
  moreover
  have m: "irMeasure m = blockMeasure pre w0 + (4 ^ W + blockMeasure post (w1(root := W)))"
    unfolding irMeasure_def b blockMeasure_append blockMeasure.simps fst_conv snd_conv
    by (simp only: w0_def w1_def W_def)
  have m': "irMeasure ?m' = blockMeasure pre w0 + blockMeasure (?post post) w1"
    unfolding irMeasure_def b' blockMeasure_append
    by (simp only: w0_def w1_def)
  moreover have "0 < (4::nat) ^ W" by simp
  ultimately show "irMeasure ?m' < irMeasure m"
    unfolding m m' by linarith
  have old: "u < nextValue m \<and> (\<forall>y \<in> set (getOperands e). y < nextValue m)"
    if "(u, e) \<in> set (body m)" for u e
    using valuesBelowNextD [OF vb that] .
  from old [of root d] b xo have xn: "x < nextValue m" by simp
  have mem: "\<exists>e. (u, e) \<in> set (body m) \<and> e' = mapOperands ?s e" if "(u, e') \<in> set (body ?m')" for u e'
  proof -
    from that b' consider "(u, e') \<in> set pre" | "(u, e') \<in> set (?post post)" by auto
    then show ?thesis
    proof cases
      case 1
      with dom have "\<forall>y \<in> set (getOperands e'). ?s y = y"
        by (auto simp: dominance_append)
      then have "mapOperands ?s e' = e'" by (rule mapOperands_id)
      with 1 b show ?thesis by auto
    next
      case 2
      with b show ?thesis by auto
    qed
  qed
  have "valuesBelowNext ?m'"
    unfolding valuesBelowNext_def
  proof (intro ballI, clarify)
    fix u e' assume "(u, e') \<in> set (body ?m')"
    from mem [OF this] obtain e where e: "(u, e) \<in> set (body m)" "e' = mapOperands ?s e"
      by blast
    from old [OF e(1)] xn e(2)
    show "u < nextValue ?m' \<and> (\<forall>y \<in> set (getOperands e'). y < nextValue ?m')"
      by (auto simp: getOperands_mapOperands replaceOpWithValue_def)
  qed
  moreover have "dominance (body ?m')"
    unfolding b' dominance_append
    using dpre dominance_subst [OF dpost xpost, of root] cross
    by (simp add: fst_image_subst)
  moreover have "variadicVerified e'" if "(u, e') \<in> set (body ?m')" for u e'
  proof -
    from mem [OF that] obtain e where e: "(u, e) \<in> set (body m)" "e' = mapOperands ?s e"
      by blast
    with wellFormedD(3) [OF wf e(1)] show ?thesis
      by (simp add: variadicVerified_mapOperands)
  qed
  ultimately show "wellFormed ?m'"
    unfolding wellFormed_def by blast
qed

lemma simplifyStep_decreases:
  assumes wf: "wellFormed m" and step: "simplifyStep m m'"
  shows "wellFormed m' \<and> irMeasure m' < irMeasure m"
  using step
proof cases
  case (rewrite root)
  from canonicalize_wellFormed [OF wf this] canonicalize_decreases [OF wf this]
  show ?thesis by simp
next
  case (foldToValue root d x)
  with foldToValue_decreases [OF wf foldToValue(2,3)] show ?thesis by simp
next
  case (foldToConstant root d a)
  with foldToConstant_decreases [OF wf foldToConstant(2,3,4)] show ?thesis by simp
qed

text \<open>
  C8. Starting from a well-formed block, applying folds and patterns again and again, to
  any operations and in any order, comes to an end: every step keeps the block well-formed
  and makes its measure strictly smaller, so there is no infinite run. Flattening is
  included, although it can make the operand list of the node longer.
\<close>

theorem simplification_terminates:
  assumes wf: "wellFormed m0"
  shows "(\<forall>m1. simplifyStep m0 m1 \<longrightarrow> wellFormed m1 \<and> irMeasure m1 < irMeasure m0) \<and>
         \<not> (\<exists>run. run 0 = m0 \<and> (\<forall>i. simplifyStep (run i) (run (Suc i))))"
proof (intro conjI allI impI notI)
  fix m1 assume "simplifyStep m0 m1"
  with wf show "wellFormed m1" "irMeasure m1 < irMeasure m0"
    by (simp_all add: simplifyStep_decreases)
next
  assume "\<exists>run. run 0 = m0 \<and> (\<forall>i. simplifyStep (run i) (run (Suc i)))"
  then obtain run where r0: "run 0 = m0" and st: "\<And>i. simplifyStep (run i) (run (Suc i))"
    by blast
  have wfi: "wellFormed (run i)" for i
  proof (induction i)
    case 0
    with wf r0 show ?case by simp
  next
    case (Suc i)
    from simplifyStep_decreases [OF Suc st] show ?case by simp
  qed
  have "irMeasure (run i) + i \<le> irMeasure (run 0)" for i
  proof (induction i)
    case 0
    show ?case by simp
  next
    case (Suc i)
    from simplifyStep_decreases [OF wfi st, of i] Suc show ?case by simp
  qed
  from this [of "Suc (irMeasure (run 0))"] show False by simp
qed

lemma ex_term_step: "canonicalize ex_term 13 = Inr (Some ex_term')"
  by (simp add: canonicalize_def AddOp_matchAndRewrite_def lastIsConstant_def m_RConstant_def
        getDefiningOp_def matchConstantPair_def matchAddShl_def matchAddMul_def
        tryFlatteningOperands_def hasOneUse_def numUses_def replaceOpWithNewOp_def
        ex_term_def ex_term'_def)

theorem simplification_terminates_witness:
  "wellFormed ex_term \<and> simplifyStep ex_term ex_term' \<and> wellFormed ex_term' \<and>
   irMeasure ex_term' < irMeasure ex_term \<and>
   \<not> (\<exists>run. run 0 = ex_term \<and> (\<forall>i. simplifyStep (run i) (run (Suc i))))"
proof -
  have wf: "wellFormed ex_term"
    by (simp add: wellFormed_def valuesBelowNext_def variadicVerified_def
          verifyUTVariadicRTLOp_def ex_term_def)
  have st: "simplifyStep ex_term ex_term'"
    by (rule simplifyStep.rewrite [OF ex_term_step])
  from simplification_terminates [OF wf] st wf show ?thesis
    by blast
qed

end
